theory Spec2Isabelle
  imports Main "HOL-Library.Product_Lexorder" "HOL-Library.Multiset"
begin

section \<open>A* search on an occupancy grid\<close>

text \<open>
  The development embeds the function \<open>astar\<close> of \<^verbatim>\<open>astarclaude.py\<close> and its textual
  twin in \<^verbatim>\<open>interactive.py\<close>. Python integers are \<open>int\<close>, a coordinate is a pair
  of integers, the grid is a list of rows, the dictionaries \<open>came_from\<close> and
  \<open>g_score\<close> are maps and the set \<open>visited\<close> is a set. Every place where Python
  can raise is a branch that returns the error, and a result that is never
  produced is the value \<open>None\<close> of the outermost option.
\<close>

subsection \<open>Data\<close>

type_synonym pos = "int \<times> int"
type_synonym grid = "int list list"

text \<open>A frontier entry is the tuple \<^verbatim>\<open>(f_score, counter, position)\<close>.\<close>

type_synonym entry = "int \<times> int \<times> pos"

datatype error = IndexError | KeyError

text \<open>
  What a call gives back: \<open>Inl e\<close> when it raises, \<open>Inr None\<close> for Python's
  \<^verbatim>\<open>None\<close>, \<open>Inr (Some path)\<close> for a list of positions.
\<close>

type_synonym result = "error + pos list option"

record search =
  pq :: "entry list"
  counter :: int
  came_from :: "pos \<rightharpoonup> pos"
  g_score :: "pos \<rightharpoonup> int"
  visited :: "pos set"

datatype iteration = Return "result option" | Continue search

subsection \<open>Library operations the source relies on\<close>

text \<open>
  Subscription \<^verbatim>\<open>xs[i]\<close>: an index from \<open>0\<close> up to the length reads from the
  front, one from \<open>-1\<close> down to minus the length reads from the back, and any
  other index raises \<^verbatim>\<open>IndexError\<close>.
\<close>

definition getitem :: "'a list \<Rightarrow> int \<Rightarrow> error + 'a" where
  "getitem xs i =
     (if 0 \<le> i \<and> i < int (length xs) then Inr (xs ! nat i)
      else if i < 0 \<and> - int (length xs) \<le> i then Inr (xs ! nat (int (length xs) + i))
      else Inl IndexError)"

text \<open>
  \<^verbatim>\<open>heapq\<close> keeps a bag of entries in a list. Its contract is all the search
  observes: \<^verbatim>\<open>heappush\<close> adds an entry, \<^verbatim>\<open>heappop\<close> removes and returns a least
  entry in Python's tuple order, which is the lexicographic order on
  \<open>(f, counter, (row, col))\<close>, and raises on the empty list. The order is total,
  so two least entries are the same value. The list of the model holds the
  entries in the order they were pushed.
\<close>

definition heappush :: "entry list \<Rightarrow> entry \<Rightarrow> entry list" where
  "heappush heap item = heap @ [item]"

definition heappop :: "entry list \<Rightarrow> error + (entry \<times> entry list)" where
  "heappop heap =
     (case heap of
        [] \<Rightarrow> Inl IndexError
      | x # xs \<Rightarrow> (let m = fold min xs x in Inr (m, remove1 m heap)))"

subsection \<open>The function of astarclaude.py\<close>

definition rows :: "grid \<Rightarrow> int" where
  "rows grid = int (length grid)"

text \<open>\<^verbatim>\<open>cols = len(grid[0])\<close>; the entry of \<open>astar\<close> raises before it is read on an empty grid.\<close>

definition cols :: "grid \<Rightarrow> int" where
  "cols grid = (case grid of [] \<Rightarrow> 0 | row # _ \<Rightarrow> int (length row))"

definition h :: "pos \<Rightarrow> pos \<Rightarrow> int" where
  "h goal p = \<bar>fst p - fst goal\<bar> + \<bar>snd p - snd goal\<bar>"

definition candidates :: "pos \<Rightarrow> pos list" where
  "candidates p = (case p of (r, c) \<Rightarrow> [(r + 1, c), (r - 1, c), (r, c + 1), (r, c - 1)])"

text \<open>The list comprehension of \<open>neighbors\<close>: the bounds are tested before the grid is read.\<close>

fun comprehension :: "grid \<Rightarrow> pos list \<Rightarrow> error + pos list" where
  "comprehension grid [] = Inr []"
| "comprehension grid ((nr, nc) # cs) =
     (if 0 \<le> nr \<and> nr < rows grid \<and> 0 \<le> nc \<and> nc < cols grid then
        (case getitem grid nr of
           Inl e \<Rightarrow> Inl e
         | Inr row \<Rightarrow>
             (case getitem row nc of
                Inl e \<Rightarrow> Inl e
              | Inr v \<Rightarrow>
                  (case comprehension grid cs of
                     Inl e \<Rightarrow> Inl e
                   | Inr rest \<Rightarrow> Inr (if v = 0 then (nr, nc) # rest else rest))))
      else comprehension grid cs)"

definition neighbors :: "grid \<Rightarrow> pos \<Rightarrow> error + pos list" where
  "neighbors grid p = comprehension grid (candidates p)"

text \<open>The body of the \<^verbatim>\<open>for nb in neighbors(curr)\<close> loop.\<close>

definition relax :: "pos \<Rightarrow> pos \<Rightarrow> search \<Rightarrow> pos \<Rightarrow> error + search" where
  "relax goal cur s nb =
     (case g_score s cur of
        None \<Rightarrow> Inl KeyError
      | Some gc \<Rightarrow>
          (let tentative_g = gc + 1 in
           if (case g_score s nb of None \<Rightarrow> True | Some gn \<Rightarrow> tentative_g < gn) then
             Inr (s\<lparr>came_from := (came_from s)(nb \<mapsto> cur),
                    g_score := (g_score s)(nb \<mapsto> tentative_g),
                    pq := heappush (pq s) (tentative_g + h goal nb, counter s, nb),
                    counter := counter s + 1\<rparr>)
           else Inr s))"

fun expand :: "pos \<Rightarrow> pos \<Rightarrow> pos list \<Rightarrow> search \<Rightarrow> error + search" where
  "expand goal cur [] s = Inr s"
| "expand goal cur (nb # nbs) s =
     (case relax goal cur s nb of
        Inl e \<Rightarrow> Inl e
      | Inr s' \<Rightarrow> expand goal cur nbs s')"

text \<open>
  Path reconstruction follows \<open>came_from\<close> for as long as the current position is
  a key. On a map with a cycle the Python loop does not end; here that is the
  value \<open>None\<close>.
\<close>

partial_function (option) reconstruct :: "(pos \<rightharpoonup> pos) \<Rightarrow> pos \<Rightarrow> pos list \<Rightarrow> pos list option" where
  "reconstruct cf cur path =
     (case cf cur of
        None \<Rightarrow> Some path
      | Some p \<Rightarrow> reconstruct cf p (path @ [p]))"

declare reconstruct.simps [code]

text \<open>One pass through the body of \<^verbatim>\<open>while pq\<close>.\<close>

definition body :: "grid \<Rightarrow> pos \<Rightarrow> search \<Rightarrow> iteration" where
  "body grid goal s =
     (case heappop (pq s) of
        Inl e \<Rightarrow> Return (Some (Inl e))
      | Inr (item, rest) \<Rightarrow>
          (let cur = snd (snd item) in
           if cur = goal then
             Return (map_option (\<lambda>path. Inr (Some (rev path)))
                       (reconstruct (came_from s) cur [cur]))
           else if cur \<in> visited s then Continue (s\<lparr>pq := rest\<rparr>)
           else
             (case neighbors grid cur of
                Inl e \<Rightarrow> Return (Some (Inl e))
              | Inr nbs \<Rightarrow>
                  (case expand goal cur nbs (s\<lparr>pq := rest, visited := insert cur (visited s)\<rparr>) of
                     Inl e \<Rightarrow> Return (Some (Inl e))
                   | Inr s' \<Rightarrow> Continue s'))))"

text \<open>
  The loop \<^verbatim>\<open>while pq\<close>: an empty frontier ends it with \<^verbatim>\<open>None\<close>.
\<close>

function loop :: "grid \<Rightarrow> pos \<Rightarrow> search \<Rightarrow> result option" where
  "loop grid goal s =
     (if pq s = [] then Some (Inr None)
      else
        (case body grid goal s of
           Return r \<Rightarrow> r
         | Continue s' \<Rightarrow> loop grid goal s'))"
  by pat_completeness auto

text \<open>The state built before the loop: the start is pushed with counter 0.\<close>

definition initial :: "pos \<Rightarrow> pos \<Rightarrow> search" where
  "initial goal start =
     \<lparr>pq = [(h goal start, 0, start)], counter = 1, came_from = Map.empty,
      g_score = [start \<mapsto> 0], visited = {}\<rparr>"

definition astar :: "grid \<Rightarrow> pos \<Rightarrow> pos \<Rightarrow> result option" where
  "astar grid start goal =
     (case getitem grid 0 of
        Inl e \<Rightarrow> Some (Inl e)
      | Inr row0 \<Rightarrow> loop grid goal (initial goal start))"

text \<open>The grid of the example at the end of \<^verbatim>\<open>astarclaude.py\<close>.\<close>

definition reference_grid :: grid where
  "reference_grid =
     [[0, 0, 0, 0, 0],
      [0, 1, 1, 0, 0],
      [0, 0, 0, 0, 1],
      [0, 1, 0, 1, 0],
      [0, 0, 0, 0, 0]]"

subsection \<open>The function of interactive.py\<close>

text \<open>
  \<^verbatim>\<open>interactive.py\<close> carries its own \<open>astar\<close>, translated here line by line in the
  same way; its window code is not part of the search.
\<close>

definition rows_interactive :: "grid \<Rightarrow> int" where
  "rows_interactive grid = int (length grid)"

definition cols_interactive :: "grid \<Rightarrow> int" where
  "cols_interactive grid = (case grid of [] \<Rightarrow> 0 | row # _ \<Rightarrow> int (length row))"

definition h_interactive :: "pos \<Rightarrow> pos \<Rightarrow> int" where
  "h_interactive goal p = \<bar>fst p - fst goal\<bar> + \<bar>snd p - snd goal\<bar>"

definition candidates_interactive :: "pos \<Rightarrow> pos list" where
  "candidates_interactive p = (case p of (r, c) \<Rightarrow> [(r + 1, c), (r - 1, c), (r, c + 1), (r, c - 1)])"

fun comprehension_interactive :: "grid \<Rightarrow> pos list \<Rightarrow> error + pos list" where
  "comprehension_interactive grid [] = Inr []"
| "comprehension_interactive grid ((nr, nc) # cs) =
     (if 0 \<le> nr \<and> nr < rows_interactive grid \<and> 0 \<le> nc \<and> nc < cols_interactive grid then
        (case getitem grid nr of
           Inl e \<Rightarrow> Inl e
         | Inr row \<Rightarrow>
             (case getitem row nc of
                Inl e \<Rightarrow> Inl e
              | Inr v \<Rightarrow>
                  (case comprehension_interactive grid cs of
                     Inl e \<Rightarrow> Inl e
                   | Inr rest \<Rightarrow> Inr (if v = 0 then (nr, nc) # rest else rest))))
      else comprehension_interactive grid cs)"

definition neighbors_interactive :: "grid \<Rightarrow> pos \<Rightarrow> error + pos list" where
  "neighbors_interactive grid p = comprehension_interactive grid (candidates_interactive p)"

definition relax_interactive :: "pos \<Rightarrow> pos \<Rightarrow> search \<Rightarrow> pos \<Rightarrow> error + search" where
  "relax_interactive goal cur s nb =
     (case g_score s cur of
        None \<Rightarrow> Inl KeyError
      | Some gc \<Rightarrow>
          (let tentative_g = gc + 1 in
           if (case g_score s nb of None \<Rightarrow> True | Some gn \<Rightarrow> tentative_g < gn) then
             Inr (s\<lparr>came_from := (came_from s)(nb \<mapsto> cur),
                    g_score := (g_score s)(nb \<mapsto> tentative_g),
                    pq := heappush (pq s) (tentative_g + h_interactive goal nb, counter s, nb),
                    counter := counter s + 1\<rparr>)
           else Inr s))"

fun expand_interactive :: "pos \<Rightarrow> pos \<Rightarrow> pos list \<Rightarrow> search \<Rightarrow> error + search" where
  "expand_interactive goal cur [] s = Inr s"
| "expand_interactive goal cur (nb # nbs) s =
     (case relax_interactive goal cur s nb of
        Inl e \<Rightarrow> Inl e
      | Inr s' \<Rightarrow> expand_interactive goal cur nbs s')"

partial_function (option) reconstruct_interactive :: "(pos \<rightharpoonup> pos) \<Rightarrow> pos \<Rightarrow> pos list \<Rightarrow> pos list option" where
  "reconstruct_interactive cf cur path =
     (case cf cur of
        None \<Rightarrow> Some path
      | Some p \<Rightarrow> reconstruct_interactive cf p (path @ [p]))"

declare reconstruct_interactive.simps [code]

definition body_interactive :: "grid \<Rightarrow> pos \<Rightarrow> search \<Rightarrow> iteration" where
  "body_interactive grid goal s =
     (case heappop (pq s) of
        Inl e \<Rightarrow> Return (Some (Inl e))
      | Inr (item, rest) \<Rightarrow>
          (let cur = snd (snd item) in
           if cur = goal then
             Return (map_option (\<lambda>path. Inr (Some (rev path)))
                       (reconstruct_interactive (came_from s) cur [cur]))
           else if cur \<in> visited s then Continue (s\<lparr>pq := rest\<rparr>)
           else
             (case neighbors_interactive grid cur of
                Inl e \<Rightarrow> Return (Some (Inl e))
              | Inr nbs \<Rightarrow>
                  (case expand_interactive goal cur nbs (s\<lparr>pq := rest, visited := insert cur (visited s)\<rparr>) of
                     Inl e \<Rightarrow> Return (Some (Inl e))
                   | Inr s' \<Rightarrow> Continue s'))))"

function loop_interactive :: "grid \<Rightarrow> pos \<Rightarrow> search \<Rightarrow> result option" where
  "loop_interactive grid goal s =
     (if pq s = [] then Some (Inr None)
      else
        (case body_interactive grid goal s of
           Return r \<Rightarrow> r
         | Continue s' \<Rightarrow> loop_interactive grid goal s'))"
  by pat_completeness auto

definition initial_interactive :: "pos \<Rightarrow> pos \<Rightarrow> search" where
  "initial_interactive goal start =
     \<lparr>pq = [(h_interactive goal start, 0, start)], counter = 1, came_from = Map.empty,
      g_score = [start \<mapsto> 0], visited = {}\<rparr>"

definition astar_interactive :: "grid \<Rightarrow> pos \<Rightarrow> pos \<Rightarrow> result option" where
  "astar_interactive grid start goal =
     (case getitem grid 0 of
        Inl e \<Rightarrow> Some (Inl e)
      | Inr row0 \<Rightarrow> loop_interactive grid goal (initial_interactive goal start))"

subsection \<open>Grids and routes\<close>

text \<open>The coordinates in bounds, rectangular grids, walkable cells and 4-directional steps.\<close>

definition cells :: "grid \<Rightarrow> pos set" where
  "cells grid = {0..<rows grid} \<times> {0..<cols grid}"

definition rectangular :: "grid \<Rightarrow> bool" where
  "rectangular grid = (\<forall>row \<in> set grid. int (length row) = cols grid)"

definition walkable :: "grid \<Rightarrow> pos \<Rightarrow> bool" where
  "walkable grid p = (p \<in> cells grid \<and> grid ! nat (fst p) ! nat (snd p) = 0)"

definition adjacent :: "pos \<Rightarrow> pos \<Rightarrow> bool" where
  "adjacent p q =
     (\<bar>fst p - fst q\<bar> = 1 \<and> snd p = snd q \<or> fst p = fst q \<and> \<bar>snd p - snd q\<bar> = 1)"

text \<open>A route is a non-empty list of walkable cells in which each cell is adjacent to the next.\<close>

fun route :: "grid \<Rightarrow> pos list \<Rightarrow> bool" where
  "route grid [] = False"
| "route grid [p] = walkable grid p"
| "route grid (p # q # ps) = (walkable grid p \<and> adjacent p q \<and> route grid (q # ps))"

definition connects :: "grid \<Rightarrow> pos \<Rightarrow> pos \<Rightarrow> pos list \<Rightarrow> bool" where
  "connects grid start goal ps = (route grid ps \<and> hd ps = start \<and> last ps = goal)"

subsection \<open>The states of a run\<close>

text \<open>The states that the loop of one call passes through, from the state built at entry.\<close>

inductive reach :: "grid \<Rightarrow> pos \<Rightarrow> pos \<Rightarrow> search \<Rightarrow> bool" for grid start goal where
  reach_initial: "reach grid start goal (initial goal start)"
| reach_step: "reach grid start goal s \<Longrightarrow> pq s \<noteq> [] \<Longrightarrow> body grid goal s = Continue s'
     \<Longrightarrow> reach grid start goal s'"

text \<open>
  The measure of the loop: five units for every position that may still be
  expanded, one for every frontier entry.
\<close>

definition todo :: "grid \<Rightarrow> search \<Rightarrow> pos set" where
  "todo grid s = (cells grid \<union> (snd \<circ> snd) ` set (pq s)) - visited s"

definition budget :: "grid \<Rightarrow> search \<Rightarrow> nat" where
  "budget grid s = 5 * card (todo grid s) + length (pq s)"

subsection \<open>Invariants of the loop\<close>

text \<open>
  Every frontier entry has a recorded cost, a predecessor is at least one step
  cheaper than its successor, and no cost is negative.
\<close>

definition sound :: "search \<Rightarrow> bool" where
  "sound s =
     ((\<forall>e \<in> set (pq s). g_score s (snd (snd e)) \<noteq> None) \<and>
      (\<forall>p q. came_from s p = Some q \<longrightarrow>
         (\<exists>gp gq. g_score s p = Some gp \<and> g_score s q = Some gq \<and> gq + 1 \<le> gp)) \<and>
      (\<forall>p k. g_score s p = Some k \<longrightarrow> 0 \<le> k))"

text \<open>No frontier entry sits on the goal.\<close>

definition nogoal :: "pos \<Rightarrow> search \<Rightarrow> bool" where
  "nogoal goal s = (\<forall>e \<in> set (pq s). snd (snd e) \<noteq> goal)"

text \<open>
  The predecessor map is a tree rooted at the start: the start has cost 0 and no
  predecessor, every position with a cost is walkable and, unless it is the
  start, has a predecessor, and a predecessor is adjacent to its successor.
\<close>

definition tree :: "grid \<Rightarrow> pos \<Rightarrow> search \<Rightarrow> bool" where
  "tree grid start s =
     (g_score s start = Some 0 \<and> came_from s start = None \<and>
      (\<forall>p k. g_score s p = Some k \<longrightarrow> walkable grid p \<and> (p \<noteq> start \<longrightarrow> came_from s p \<noteq> None)) \<and>
      (\<forall>p q. came_from s p = Some q \<longrightarrow> adjacent q p))"

text \<open>
  The frontier list, read in the order of the pushes, carries strictly increasing
  counters, all of them between 0 and the next counter to be given out.
\<close>

definition numbered :: "search \<Rightarrow> bool" where
  "numbered s =
     (sorted_wrt (<) (map (fst \<circ> snd) (pq s)) \<and> 0 < counter s \<and>
      (\<forall>e \<in> set (pq s). 0 \<le> fst (snd e) \<and> fst (snd e) < counter s))"

text \<open>
  The frontier: the \<open>f\<close> of an entry is never below the recorded cost of its position
  plus the heuristic, and every position with a cost that is not yet visited
  has an entry whose \<open>f\<close> is exactly that sum.
\<close>

definition frontier :: "pos \<Rightarrow> search \<Rightarrow> bool" where
  "frontier goal s =
     ((\<forall>e \<in> set (pq s). \<exists>k. g_score s (snd (snd e)) = Some k \<and> k + h goal (snd (snd e)) \<le> fst e) \<and>
      (\<forall>p k. g_score s p = Some k \<longrightarrow> p \<notin> visited s \<longrightarrow> (\<exists>c. (k + h goal p, c, p) \<in> set (pq s))))"

text \<open>
  Visited positions have a cost, and every walkable neighbour of a visited
  position costs at most one more, apart from the edges in \<open>P\<close> that the running
  \<^verbatim>\<open>for\<close> loop has still to relax.
\<close>

definition closed :: "(pos \<times> pos) set \<Rightarrow> grid \<Rightarrow> search \<Rightarrow> bool" where
  "closed P grid s =
     (\<forall>p \<in> visited s. (\<exists>k. g_score s p = Some k) \<and>
        (\<forall>q. walkable grid q \<longrightarrow> adjacent p q \<longrightarrow>
           (p, q) \<in> P \<or> (\<exists>k j. g_score s p = Some k \<and> g_score s q = Some j \<and> j \<le> k + 1)))"

text \<open>The goal is never visited, and the cost of a visited position is the least length of a route to it.\<close>

definition best :: "grid \<Rightarrow> pos \<Rightarrow> pos \<Rightarrow> search \<Rightarrow> bool" where
  "best grid start goal s =
     (goal \<notin> visited s \<and>
      (\<forall>p \<in> visited s. \<forall>k ps. g_score s p = Some k \<longrightarrow> connects grid start p ps \<longrightarrow>
         k + 1 \<le> int (length ps)))"

text \<open>The whole invariant of the loop.\<close>

definition inv :: "grid \<Rightarrow> pos \<Rightarrow> pos \<Rightarrow> search \<Rightarrow> bool" where
  "inv grid start goal s =
     (sound s \<and> tree grid start s \<and> frontier goal s \<and> closed {} grid s \<and> best grid start goal s)"

text \<open>The least number of steps of a route from the start to the goal.\<close>

definition distance :: "grid \<Rightarrow> pos \<Rightarrow> pos \<Rightarrow> nat" where
  "distance grid start goal = (LEAST n. \<exists>ps. connects grid start goal ps \<and> length ps = Suc n)"


text \<open>
  The invariant that \<^verbatim>\<open>heapq\<close> keeps on its list: the entry at index \<open>k\<close> is not above
  the entries at \<open>2 * k + 1\<close> and \<open>2 * k + 2\<close>.
\<close>

definition is_heap :: "entry list \<Rightarrow> bool" where
  "is_heap heap =
     (\<forall>k. (2 * k + 1 < length heap \<longrightarrow> heap ! k \<le> heap ! (2 * k + 1)) \<and>
          (2 * k + 2 < length heap \<longrightarrow> heap ! k \<le> heap ! (2 * k + 2)))"



section \<open>Termination of the loop\<close>

lemma finite_todo: "finite (todo grid s)"
  by (simp add: todo_def cells_def)

lemma heappop_Inr:
  assumes "heappop heap = Inr (m, rest)"
  shows "m \<in> set heap" and "rest = remove1 m heap" and "\<forall>e \<in> set heap. m \<le> e"
proof -
  from assms obtain x xs where hx: "heap = x # xs" and m: "m = fold min xs x" and r: "rest = remove1 m heap"
    by (auto simp: heappop_def Let_def split: list.splits)
  have "fold min xs x = Min (set (x # xs))"
    by (rule Min.set_eq_fold[symmetric])
  with m hx have mm: "m = Min (set heap)" by simp
  from hx have ne: "set heap \<noteq> {}" by simp
  show "m \<in> set heap" using mm ne Min_in by (metis List.finite_set)
  show "rest = remove1 m heap" by (rule r)
  show "\<forall>e \<in> set heap. m \<le> e" using mm by simp
qed

lemma comprehension_Cons_Inr:
  assumes "comprehension grid ((nr, nc) # cs) = Inr ns"
  shows "\<exists>rest. comprehension grid cs = Inr rest \<and>
           (ns = rest \<or>
            ns = (nr, nc) # rest \<and> 0 \<le> nr \<and> nr < rows grid \<and> 0 \<le> nc \<and> nc < cols grid \<and>
              (\<exists>row. getitem grid nr = Inr row \<and> getitem row nc = Inr 0))"
  using assms by (auto split: if_splits sum.splits)

lemma comprehension_sub:
  "comprehension grid cs = Inr ns \<Longrightarrow> set ns \<subseteq> set cs \<inter> cells grid \<and> length ns \<le> length cs"
proof (induction cs arbitrary: ns)
  case Nil
  then show ?case by simp
next
  case (Cons c cs)
  obtain nr nc where c: "c = (nr, nc)" by (cases c)
  from comprehension_Cons_Inr[OF Cons.prems[unfolded c]] obtain rest
    where r: "comprehension grid cs = Inr rest"
      and d: "ns = rest \<or> ns = (nr, nc) # rest \<and> 0 \<le> nr \<and> nr < rows grid \<and> 0 \<le> nc \<and> nc < cols grid"
    by blast
  from Cons.IH[OF r] d show ?case by (auto simp: c cells_def)
qed

lemma neighbors_sub:
  assumes "neighbors grid p = Inr ns"
  shows "set ns \<subseteq> cells grid" and "length ns \<le> 4"
  using comprehension_sub[OF assms[unfolded neighbors_def]]
  by (auto simp: candidates_def split: prod.splits)

lemma relax_frame:
  assumes "relax goal cur s nb = Inr s'"
  shows "visited s' = visited s"
    and "\<exists>ys. pq s' = pq s @ ys \<and> length ys \<le> 1 \<and> (snd \<circ> snd) ` set ys \<subseteq> {nb}"
  using assms
  by (auto simp: relax_def Let_def heappush_def split: option.splits if_splits)

lemma expand_frame:
  "expand goal cur nbs s = Inr s' \<Longrightarrow>
     visited s' = visited s \<and>
     (\<exists>ys. pq s' = pq s @ ys \<and> length ys \<le> length nbs \<and> (snd \<circ> snd) ` set ys \<subseteq> set nbs)"
proof (induction nbs arbitrary: s)
  case Nil
  then show ?case by simp
next
  case (Cons nb nbs)
  from Cons.prems obtain s1 where r: "relax goal cur s nb = Inr s1" and e: "expand goal cur nbs s1 = Inr s'"
    by (auto split: sum.splits)
  from relax_frame[OF r] obtain ys where v1: "visited s1 = visited s"
    and p1: "pq s1 = pq s @ ys" "length ys \<le> 1" "(snd \<circ> snd) ` set ys \<subseteq> {nb}" by blast
  from Cons.IH[OF e] obtain zs where v2: "visited s' = visited s1"
    and p2: "pq s' = pq s1 @ zs" "length zs \<le> length nbs" "(snd \<circ> snd) ` set zs \<subseteq> set nbs" by blast
  have "pq s' = pq s @ (ys @ zs)" using p1 p2 by simp
  moreover have "length (ys @ zs) \<le> length (nb # nbs)" using p1 p2 by simp
  moreover have "(snd \<circ> snd) ` set (ys @ zs) \<subseteq> set (nb # nbs)" using p1 p2 by auto
  ultimately show ?case using v1 v2 by blast
qed

lemma body_budget:
  assumes "body grid goal s = Continue s'"
  shows "budget grid s' < budget grid s"
proof -
  from assms obtain item rest where hp: "heappop (pq s) = Inr (item, rest)"
    by (auto simp: body_def split: sum.splits)
  define cur where "cur = snd (snd item)"
  note pop = heappop_Inr[OF hp]
  have len: "length rest + 1 = length (pq s)"
    using pop(1,2) by (simp add: length_remove1) (metis One_nat_def Suc_pred length_pos_if_in_set)
  have sub: "set rest \<subseteq> set (pq s)" using pop(2) set_remove1_subset by fast
  have curin: "cur \<in> (snd \<circ> snd) ` set (pq s)" using pop(1) cur_def by force
  show ?thesis
  proof (cases "cur \<in> visited s")
    case True
    with assms hp have s': "s' = s\<lparr>pq := rest\<rparr>"
      by (auto simp: body_def Let_def cur_def split: if_splits sum.splits)
    have "todo grid s' \<subseteq> todo grid s" using sub by (auto simp: todo_def s')
    then have "card (todo grid s') \<le> card (todo grid s)"
      by (rule card_mono[OF finite_todo])
    then show ?thesis using len by (simp add: budget_def s')
  next
    case False
    with assms hp obtain nbs where nb: "neighbors grid cur = Inr nbs"
      and ex: "expand goal cur nbs (s\<lparr>pq := rest, visited := insert cur (visited s)\<rparr>) = Inr s'"
      by (auto simp: body_def Let_def cur_def split: if_splits sum.splits)
    from expand_frame[OF ex] obtain ys where v: "visited s' = insert cur (visited s)"
      and p: "pq s' = rest @ ys" "length ys \<le> length nbs" "(snd \<circ> snd) ` set ys \<subseteq> set nbs"
      by auto
    note n = neighbors_sub[OF nb]
    have "todo grid s' \<subseteq> todo grid s - {cur}"
      using sub p n(1) v by (auto simp: todo_def)
    moreover have "cur \<in> todo grid s" using curin False by (simp add: todo_def)
    ultimately have "todo grid s' \<subset> todo grid s" by blast
    then have "card (todo grid s') < card (todo grid s)"
      by (rule psubset_card_mono[OF finite_todo])
    moreover have "length (pq s') \<le> length (pq s) + 3" using p n(2) len by simp
    ultimately show ?thesis by (simp add: budget_def)
  qed
qed

termination loop
  by (relation "measure (\<lambda>(grid, goal, s). budget grid s)") (auto dest: body_budget)

section \<open>The two copies of the search agree\<close>

lemma rows_twin: "rows_interactive = rows"
  by (rule ext) (simp add: rows_interactive_def rows_def)

lemma cols_twin: "cols_interactive = cols"
  by (rule ext) (simp add: cols_interactive_def cols_def)

lemma h_twin: "h_interactive = h"
  by (rule ext)+ (simp add: h_interactive_def h_def)

lemma candidates_twin: "candidates_interactive = candidates"
  by (rule ext) (simp add: candidates_interactive_def candidates_def)

lemma comprehension_twin: "comprehension_interactive grid cs = comprehension grid cs"
  by (induction cs) (auto simp: rows_twin cols_twin split: sum.splits)

lemma neighbors_twin: "neighbors_interactive = neighbors"
  by (rule ext)+ (simp add: neighbors_interactive_def neighbors_def candidates_twin comprehension_twin)

lemma relax_twin: "relax_interactive = relax"
  by (rule ext)+ (simp only: relax_interactive_def relax_def h_twin)

lemma expand_twin: "expand_interactive goal cur nbs s = expand goal cur nbs s"
  by (induction nbs arbitrary: s) (auto simp: relax_twin split: sum.splits)

lemma reconstruct_twin_le:
  assumes "reconstruct cf cur path = Some r"
  shows "reconstruct_interactive cf cur path = Some r"
proof (rule reconstruct.raw_induct
    [where P = "\<lambda>cf cur path r. reconstruct_interactive cf cur path = Some r", OF _ assms])
  fix rec cf cur path r
  assume IH: "\<And>cf cur path r. rec cf cur path = Some r \<Longrightarrow>
      reconstruct_interactive cf cur path = Some r"
    and eq: "(case cf cur of None \<Rightarrow> Some path | Some p \<Rightarrow> rec cf p (path @ [p])) = Some r"
  show "reconstruct_interactive cf cur path = Some r"
    using eq IH by (subst reconstruct_interactive.simps) (auto split: option.splits)
qed

lemma reconstruct_twin_ge:
  assumes "reconstruct_interactive cf cur path = Some r"
  shows "reconstruct cf cur path = Some r"
proof (rule reconstruct_interactive.raw_induct
    [where P = "\<lambda>cf cur path r. reconstruct cf cur path = Some r", OF _ assms])
  fix rec cf cur path r
  assume IH: "\<And>cf cur path r. rec cf cur path = Some r \<Longrightarrow>
      reconstruct cf cur path = Some r"
    and eq: "(case cf cur of None \<Rightarrow> Some path | Some p \<Rightarrow> rec cf p (path @ [p])) = Some r"
  show "reconstruct cf cur path = Some r"
    using eq IH by (subst reconstruct.simps) (auto split: option.splits)
qed

lemma reconstruct_twin: "reconstruct_interactive = reconstruct"
proof (rule ext)+
  fix cf cur path
  show "reconstruct_interactive cf cur path = reconstruct cf cur path"
  proof (cases "reconstruct cf cur path")
    case None
    then show ?thesis
      using reconstruct_twin_ge[of cf cur path] by (cases "reconstruct_interactive cf cur path") auto
  next
    case (Some r)
    then show ?thesis by (simp add: reconstruct_twin_le)
  qed
qed

lemma expand_twin_fun: "expand_interactive = expand"
  by (rule ext)+ (rule expand_twin)

lemma body_twin: "body_interactive = body"
  by (rule ext)+
    (simp only: body_interactive_def body_def neighbors_twin expand_twin_fun reconstruct_twin)

termination loop_interactive
  by (relation "measure (\<lambda>(grid, goal, s). budget grid s)") (auto simp: body_twin dest: body_budget)

lemma loop_twin: "loop_interactive grid goal s = loop grid goal s"
proof (induction grid goal s rule: loop.induct)
  case (1 grid goal s)
  show ?case
  proof (cases "pq s = []")
    case True
    then show ?thesis by simp
  next
    case False
    show ?thesis
    proof (cases "body grid goal s")
      case (Return r)
      with False show ?thesis by (simp add: body_twin)
    next
      case (Continue s')
      with False "1.IH"[OF False Continue] show ?thesis by (simp add: body_twin)
    qed
  qed
qed

section \<open>Routes\<close>

lemma route_walkable: "route grid ps \<Longrightarrow> p \<in> set ps \<Longrightarrow> walkable grid p"
  by (induction grid ps rule: route.induct) auto

lemma route_nonempty: "route grid ps \<Longrightarrow> ps \<noteq> []"
  by auto

lemma route_last_walkable: "route grid ps \<Longrightarrow> walkable grid (last ps)"
  using route_walkable[of grid ps "last ps"] by (cases "ps = []") auto

lemma route_Cons:
  "ps \<noteq> [] \<Longrightarrow> route grid (q # ps) = (walkable grid q \<and> adjacent q (hd ps) \<and> route grid ps)"
  by (cases ps) auto

lemma route_iff:
  "route grid ps \<longleftrightarrow>
     ps \<noteq> [] \<and> (\<forall>p \<in> set ps. walkable grid p) \<and>
     (\<forall>i. Suc i < length ps \<longrightarrow> adjacent (ps ! i) (ps ! Suc i))"
proof (induction grid ps rule: route.induct)
  case (1 grid)
  then show ?case by simp
next
  case (2 grid p)
  then show ?case by simp
next
  case (3 grid p q ps)
  have "(\<forall>i. Suc i < length (p # q # ps) \<longrightarrow> adjacent ((p # q # ps) ! i) ((p # q # ps) ! Suc i))
      \<longleftrightarrow> adjacent p q \<and> (\<forall>i. Suc i < length (q # ps) \<longrightarrow> adjacent ((q # ps) ! i) ((q # ps) ! Suc i))"
    (is "?L \<longleftrightarrow> ?R")
  proof
    assume l: ?L
    have "adjacent p q" using l[rule_format, of 0] by simp
    moreover have "Suc i < length (q # ps) \<Longrightarrow> adjacent ((q # ps) ! i) ((q # ps) ! Suc i)" for i
      using l[rule_format, of "Suc i"] by simp
    ultimately show ?R by blast
  next
    assume r: ?R
    show ?L
    proof (intro allI impI)
      fix i assume "Suc i < length (p # q # ps)"
      then show "adjacent ((p # q # ps) ! i) ((p # q # ps) ! Suc i)"
        using r by (cases i) auto
    qed
  qed
  with 3 show ?case by auto
qed

lemma route_snoc:
  "ps \<noteq> [] \<Longrightarrow> route grid (ps @ [q]) = (route grid ps \<and> adjacent (last ps) q \<and> walkable grid q)"
proof (induction grid ps rule: route.induct)
  case (1 grid)
  then show ?case by simp
next
  case (2 grid p)
  then show ?case by auto
next
  case (3 grid p r ps)
  then show ?case by auto
qed

lemma adjacent_h: "adjacent p q \<Longrightarrow> h goal p \<le> 1 + h goal q"
  by (auto simp: adjacent_def h_def)

lemma route_h:
  "route grid ps \<Longrightarrow> i < length ps \<Longrightarrow>
     h goal (ps ! i) \<le> int (length ps) - 1 - int i + h goal (last ps)"
proof (induction grid ps arbitrary: i rule: route.induct)
  case (1 grid)
  then show ?case by simp
next
  case (2 grid p)
  then show ?case by simp
next
  case (3 grid p q ps)
  show ?case
  proof (cases i)
    case 0
    from "3.prems"(1) have a: "adjacent p q" and r: "route grid (q # ps)" by auto
    from "3.IH"[OF r, of 0] have "h goal q \<le> int (length (q # ps)) - 1 + h goal (last (q # ps))"
      by simp
    with adjacent_h[OF a, of goal] 0 show ?thesis by simp
  next
    case (Suc j)
    from "3.prems" have r: "route grid (q # ps)" and "j < length (q # ps)" using Suc by auto
    from "3.IH"[OF this] Suc show ?thesis by simp
  qed
qed

section \<open>Costs, predecessors and the absence of errors\<close>

lemma soundI:
  assumes "\<And>e. e \<in> set (pq s) \<Longrightarrow> g_score s (snd (snd e)) \<noteq> None"
    and "\<And>p q. came_from s p = Some q \<Longrightarrow>
           \<exists>gp gq. g_score s p = Some gp \<and> g_score s q = Some gq \<and> gq + 1 \<le> gp"
    and "\<And>p k. g_score s p = Some k \<Longrightarrow> 0 \<le> k"
  shows "sound s"
  using assms unfolding sound_def by blast

lemma sound_pq: "sound s \<Longrightarrow> e \<in> set (pq s) \<Longrightarrow> \<exists>k. g_score s (snd (snd e)) = Some k"
  unfolding sound_def by blast

lemma sound_came:
  "sound s \<Longrightarrow> came_from s p = Some q \<Longrightarrow>
     \<exists>gp gq. g_score s p = Some gp \<and> g_score s q = Some gq \<and> gq + 1 \<le> gp"
  unfolding sound_def by blast

lemma sound_nonneg: "sound s \<Longrightarrow> g_score s p = Some k \<Longrightarrow> 0 \<le> k"
  unfolding sound_def by blast

lemma sound_initial: "sound (initial goal start)"
  by (rule soundI) (auto simp: initial_def split: if_splits)

lemma relax_cases:
  assumes "relax goal cur s nb = Inr s'"
  obtains (keep) gc gn where "g_score s cur = Some gc" "g_score s nb = Some gn" "gn \<le> gc + 1" "s' = s"
  | (update) gc where "g_score s cur = Some gc"
      "g_score s nb = None \<or> (\<exists>gn. g_score s nb = Some gn \<and> gc + 1 < gn)"
      "s' = s\<lparr>came_from := (came_from s)(nb \<mapsto> cur),
               g_score := (g_score s)(nb \<mapsto> gc + 1),
               pq := pq s @ [(gc + 1 + h goal nb, counter s, nb)],
               counter := counter s + 1\<rparr>"
  using assms unfolding relax_def Let_def heappush_def
  by (auto split: option.splits if_splits)

lemma relax_update_neq:
  assumes "g_score s cur = Some gc"
    and "g_score s nb = None \<or> (\<exists>gn. g_score s nb = Some gn \<and> gc + 1 < gn)"
  shows "nb \<noteq> cur"
  using assms by auto

lemma relax_sound:
  assumes "sound s" and "relax goal cur s nb = Inr s'"
  shows "sound s'"
  using assms(2)
proof (cases rule: relax_cases)
  case (keep gc gn)
  then show ?thesis using assms(1) by simp
next
  case (update gc)
  note neq = relax_update_neq[OF update(1,2)]
  show ?thesis
  proof (rule soundI)
    fix e assume "e \<in> set (pq s')"
    then have "e \<in> set (pq s) \<or> snd (snd e) = nb" by (auto simp: update(3))
    then show "g_score s' (snd (snd e)) \<noteq> None"
      using sound_pq[OF assms(1), of e] by (auto simp: update(3))
  next
    fix p q assume cf: "came_from s' p = Some q"
    show "\<exists>gp gq. g_score s' p = Some gp \<and> g_score s' q = Some gq \<and> gq + 1 \<le> gp"
    proof (cases "p = nb")
      case True
      with cf have "q = cur" by (simp add: update(3))
      with True neq update(1) show ?thesis by (simp add: update(3))
    next
      case False
      with cf have "came_from s p = Some q" by (simp add: update(3))
      from sound_came[OF assms(1) this] obtain gp gq
        where g: "g_score s p = Some gp" "g_score s q = Some gq" "gq + 1 \<le> gp" by blast
      show ?thesis
      proof (cases "q = nb")
        case True
        with g(2) update(2) have "gc + 1 < gq" by auto
        with g False True show ?thesis by (simp add: update(3))
      next
        case qn: False
        with g False show ?thesis by (simp add: update(3))
      qed
    qed
  next
    fix p k assume "g_score s' p = Some k"
    then show "0 \<le> k"
      using sound_nonneg[OF assms(1), of p k] sound_nonneg[OF assms(1) update(1)]
      by (auto simp: update(3) split: if_splits)
  qed
qed

lemma expand_sound:
  "sound s \<Longrightarrow> expand goal cur nbs s = Inr s' \<Longrightarrow> sound s'"
proof (induction nbs arbitrary: s)
  case Nil
  then show ?case by simp
next
  case (Cons nb nbs)
  from Cons.prems(2) obtain s1 where r: "relax goal cur s nb = Inr s1"
    and e: "expand goal cur nbs s1 = Inr s'"
    by (auto split: sum.splits)
  from Cons.IH[OF relax_sound[OF Cons.prems(1) r] e] show ?case .
qed

lemma body_Continue_cases:
  assumes "body grid goal s = Continue s'"
  obtains (stale) item rest where "heappop (pq s) = Inr (item, rest)"
      "snd (snd item) \<noteq> goal" "snd (snd item) \<in> visited s" "s' = s\<lparr>pq := rest\<rparr>"
  | (fresh) item rest nbs where "heappop (pq s) = Inr (item, rest)"
      "snd (snd item) \<noteq> goal" "snd (snd item) \<notin> visited s"
      "neighbors grid (snd (snd item)) = Inr nbs"
      "expand goal (snd (snd item)) nbs (s\<lparr>pq := rest, visited := insert (snd (snd item)) (visited s)\<rparr>) = Inr s'"
  using assms unfolding body_def Let_def
  by (auto split: sum.splits if_splits)

lemma sound_shrink:
  assumes "sound s" and "set rest \<subseteq> set (pq s)"
  shows "sound (s\<lparr>pq := rest, visited := V\<rparr>)" and "sound (s\<lparr>pq := rest\<rparr>)"
  using assms unfolding sound_def by auto

lemma heappop_subset: "heappop heap = Inr (item, rest) \<Longrightarrow> set rest \<subseteq> set heap"
  using heappop_Inr(2) set_remove1_subset by fast

lemma body_sound:
  assumes "sound s" and "body grid goal s = Continue s'"
  shows "sound s'"
  using assms(2)
proof (cases rule: body_Continue_cases)
  case (stale item rest)
  then show ?thesis using sound_shrink(2)[OF assms(1) heappop_subset] by simp
next
  case (fresh item rest nbs)
  from sound_shrink(1)[OF assms(1) heappop_subset[OF fresh(1)]] expand_sound fresh(5)
  show ?thesis by blast
qed

lemma reach_sound: "reach grid start goal s \<Longrightarrow> sound s"
  by (induction rule: reach.induct) (auto intro: sound_initial body_sound)

text \<open>Path reconstruction ends on a sound state.\<close>

lemma reconstruct_returns:
  assumes "sound s" and "g_score s p = Some k"
  shows "\<exists>path. reconstruct (came_from s) p acc = Some path"
  using assms(2)
proof (induction "nat k" arbitrary: k p acc rule: less_induct)
  case less
  show ?case
  proof (cases "came_from s p")
    case None
    then show ?thesis by (subst reconstruct.simps) simp
  next
    case (Some q)
    from sound_came[OF assms(1) Some] less.prems obtain gq
      where gq: "g_score s q = Some gq" "gq + 1 \<le> k" by auto
    from sound_nonneg[OF assms(1) gq(1)] gq(2) have "nat gq < nat k" by simp
    from less.hyps[OF this gq(1)] obtain path
      where "reconstruct (came_from s) q (acc @ [q]) = Some path" by blast
    then show ?thesis using Some by (subst reconstruct.simps) simp
  qed
qed

text \<open>On a rectangular grid the comprehension never reads out of range.\<close>

lemma getitem_row:
  assumes "0 \<le> nr" "nr < rows grid"
  shows "getitem grid nr = Inr (grid ! nat nr)"
  using assms by (simp add: getitem_def rows_def)

lemma getitem_cell:
  assumes "rectangular grid" "0 \<le> nr" "nr < rows grid" "0 \<le> nc" "nc < cols grid"
  shows "getitem (grid ! nat nr) nc = Inr (grid ! nat nr ! nat nc)"
proof -
  from assms(2,3) have "grid ! nat nr \<in> set grid" by (simp add: rows_def)
  with assms(1) have "int (length (grid ! nat nr)) = cols grid" by (simp add: rectangular_def)
  with assms(4,5) show ?thesis by (simp add: getitem_def)
qed

lemma comprehension_rect:
  assumes "rectangular grid"
  shows "comprehension grid cs = Inr (filter (walkable grid) cs)"
proof (induction cs)
  case Nil
  then show ?case by simp
next
  case (Cons c cs)
  obtain nr nc where c: "c = (nr, nc)" by (cases c)
  show ?case
  proof (cases "0 \<le> nr \<and> nr < rows grid \<and> 0 \<le> nc \<and> nc < cols grid")
    case True
    then have "getitem grid nr = Inr (grid ! nat nr)"
      and "getitem (grid ! nat nr) nc = Inr (grid ! nat nr ! nat nc)"
      using getitem_row getitem_cell[OF assms] by auto
    with True Cons show ?thesis by (simp add: c walkable_def cells_def)
  next
    case False
    then have nw: "\<not> walkable grid (nr, nc)" by (auto simp: walkable_def cells_def)
    have "comprehension grid ((nr, nc) # cs) = comprehension grid cs"
      using False by (simp only: comprehension.simps if_False)
    with nw Cons show ?thesis by (simp add: c)
  qed
qed

lemma neighbors_rect:
  "rectangular grid \<Longrightarrow> neighbors grid p = Inr (filter (walkable grid) (candidates p))"
  by (simp add: neighbors_def comprehension_rect)

lemma relax_defined:
  assumes "g_score s cur = Some gc"
  shows "\<exists>s' gc'. relax goal cur s nb = Inr s' \<and> g_score s' cur = Some gc'"
  using assms unfolding relax_def Let_def by (auto split: option.splits)

lemma expand_defined:
  "g_score s cur = Some gc \<Longrightarrow> \<exists>s'. expand goal cur nbs s = Inr s'"
proof (induction nbs arbitrary: s gc)
  case Nil
  then show ?case by simp
next
  case (Cons nb nbs)
  from relax_defined[OF Cons.prems] obtain s1 gc1
    where r: "relax goal cur s nb = Inr s1" and g: "g_score s1 cur = Some gc1" by blast
  from Cons.IH[OF g] r show ?case by simp
qed

lemma heappop_nonempty: "heap \<noteq> [] \<Longrightarrow> \<exists>item rest. heappop heap = Inr (item, rest)"
  by (cases heap) (simp_all add: heappop_def Let_def del: split_paired_Ex)

lemma body_progress:
  assumes "rectangular grid" and "sound s" and "pq s \<noteq> []"
  shows "(\<exists>s'. body grid goal s = Continue s') \<or>
         (\<exists>path. body grid goal s = Return (Some (Inr (Some path))))"
proof -
  from heappop_nonempty[OF assms(3)] obtain item rest
    where hp: "heappop (pq s) = Inr (item, rest)" by blast
  define cur where "cur = snd (snd item)"
  from heappop_Inr(1)[OF hp] sound_pq[OF assms(2)] obtain k where k: "g_score s cur = Some k"
    unfolding cur_def by blast
  show ?thesis
  proof (cases "cur = goal")
    case True
    from reconstruct_returns[OF assms(2) k] obtain path
      where "reconstruct (came_from s) cur [cur] = Some path" by blast
    with True hp show ?thesis by (simp add: body_def cur_def)
  next
    case False
    show ?thesis
    proof (cases "cur \<in> visited s")
      case True
      with False hp show ?thesis by (simp add: body_def cur_def)
    next
      case nv: False
      from k have "g_score (s\<lparr>pq := rest, visited := insert cur (visited s)\<rparr>) cur = Some k" by simp
      from expand_defined[OF this] obtain s'
        where "expand goal cur (filter (walkable grid) (candidates cur))
                 (s\<lparr>pq := rest, visited := insert cur (visited s)\<rparr>) = Inr s'" by blast
      with False nv hp show ?thesis
        by (simp add: body_def cur_def[symmetric] neighbors_rect[OF assms(1)])
    qed
  qed
qed

lemma loop_returns:
  "rectangular grid \<Longrightarrow> sound s \<Longrightarrow> \<exists>r. loop grid goal s = Some (Inr r)"
proof (induction grid goal s rule: loop.induct)
  case (1 grid goal s)
  show ?case
  proof (cases "pq s = []")
    case True
    then show ?thesis by simp
  next
    case False
    from body_progress[OF "1.prems" False, of goal] show ?thesis
    proof
      assume "\<exists>s'. body grid goal s = Continue s'"
      then obtain s' where b: "body grid goal s = Continue s'" ..
      from "1.IH"[OF False b "1.prems"(1) body_sound[OF "1.prems"(2) b]] False b
      show ?thesis by simp
    next
      assume "\<exists>path. body grid goal s = Return (Some (Inr (Some path)))"
      with False show ?thesis by auto
    qed
  qed
qed

lemma body_Return_path:
  assumes "body grid goal s = Return (Some (Inr (Some path)))"
  shows "\<exists>item rest found. heappop (pq s) = Inr (item, rest) \<and> snd (snd item) = goal \<and>
           reconstruct (came_from s) goal [goal] = Some found \<and> path = rev found"
  using assms unfolding body_def Let_def
  by (auto split: sum.splits if_splits simp del: split_paired_Ex)

section \<open>A goal that cannot be entered\<close>

lemma body_nogoal:
  assumes "rectangular grid" and "\<not> walkable grid goal" and "nogoal goal s"
    and "body grid goal s = Continue s'"
  shows "nogoal goal s'"
  using assms(4)
proof (cases rule: body_Continue_cases)
  case (stale item rest)
  with heappop_subset[OF stale(1)] assms(3) show ?thesis by (auto simp: nogoal_def)
next
  case (fresh item rest nbs)
  from fresh(4) have nbs: "nbs = filter (walkable grid) (candidates (snd (snd item)))"
    by (simp add: neighbors_rect[OF assms(1)])
  from expand_frame[OF fresh(5)] obtain ys where p: "pq s' = rest @ ys"
    and y: "(snd \<circ> snd) ` set ys \<subseteq> set nbs" by auto
  have "goal \<notin> set nbs" using assms(2) nbs by auto
  with y have "\<forall>e \<in> set ys. snd (snd e) \<noteq> goal" by fastforce
  with heappop_subset[OF fresh(1)] assms(3) p show ?thesis by (auto simp: nogoal_def)
qed

lemma loop_nogoal:
  "rectangular grid \<Longrightarrow> \<not> walkable grid goal \<Longrightarrow> sound s \<Longrightarrow> nogoal goal s
     \<Longrightarrow> loop grid goal s = Some (Inr None)"
proof (induction grid goal s rule: loop.induct)
  case (1 grid goal s)
  show ?case
  proof (cases "pq s = []")
    case True
    then show ?thesis by simp
  next
    case False
    from body_progress[OF "1.prems"(1,3) False, of goal] show ?thesis
    proof
      assume "\<exists>s'. body grid goal s = Continue s'"
      then obtain s' where b: "body grid goal s = Continue s'" ..
      from "1.IH"[OF False b "1.prems"(1,2) body_sound[OF "1.prems"(3) b]
          body_nogoal[OF "1.prems"(1,2,4) b]] False b
      show ?thesis by simp
    next
      assume "\<exists>path. body grid goal s = Return (Some (Inr (Some path)))"
      then obtain path where "body grid goal s = Return (Some (Inr (Some path)))" ..
      from body_Return_path[OF this] obtain item rest
        where hp: "heappop (pq s) = Inr (item, rest)" and g: "snd (snd item) = goal" by blast
      from heappop_Inr(1)[OF hp] g "1.prems"(4) show ?thesis by (auto simp: nogoal_def)
    qed
  qed
qed

lemma nogoal_initial: "start \<noteq> goal \<Longrightarrow> nogoal goal (initial goal start)"
  by (simp add: nogoal_def initial_def)

lemma getitem_first: "0 < rows grid \<Longrightarrow> getitem grid 0 = Inr (grid ! 0)"
  by (simp add: getitem_def rows_def)

text \<open>When the start is the goal the first pop ends the call, whatever the cell holds.\<close>

lemma astar_start_is_goal:
  assumes "0 < rows grid"
  shows "astar grid p p = Some (Inr (Some [p]))"
proof -
  have g0: "getitem grid 0 = Inr (grid ! 0)" using assms by (rule getitem_first)
  have pop: "heappop [(h p p, 0, p)] = Inr ((h p p, 0, p), [])"
    by (simp add: heappop_def)
  have rec: "reconstruct Map.empty p [p] = Some [p]"
    by (simp add: reconstruct.simps)
  have "body grid p (initial p p) = Return (Some (Inr (Some [p])))"
    by (simp add: body_def initial_def pop rec)
  then have "loop grid p (initial p p) = Some (Inr (Some [p]))"
    by (subst loop.simps) (simp add: initial_def)
  then show ?thesis by (simp add: astar_def g0)
qed

lemma astar_loop:
  "0 < rows grid \<Longrightarrow> astar grid start goal = loop grid goal (initial goal start)"
  by (simp add: astar_def getitem_first)

lemma walkable_rows: "walkable grid p \<Longrightarrow> 0 < rows grid"
  by (auto simp: walkable_def cells_def)

section \<open>The predecessor tree and the returned path\<close>

lemma treeI:
  assumes "g_score s start = Some 0" and "came_from s start = None"
    and "\<And>p k. g_score s p = Some k \<Longrightarrow> walkable grid p"
    and "\<And>p k. g_score s p = Some k \<Longrightarrow> p \<noteq> start \<Longrightarrow> came_from s p \<noteq> None"
    and "\<And>p q. came_from s p = Some q \<Longrightarrow> adjacent q p"
  shows "tree grid start s"
  using assms unfolding tree_def by blast

lemma tree_start: "tree grid start s \<Longrightarrow> g_score s start = Some 0 \<and> came_from s start = None"
  unfolding tree_def by blast

lemma tree_walkable: "tree grid start s \<Longrightarrow> g_score s p = Some k \<Longrightarrow> walkable grid p"
  unfolding tree_def by blast

lemma tree_parent:
  "tree grid start s \<Longrightarrow> g_score s p = Some k \<Longrightarrow> p \<noteq> start \<Longrightarrow> \<exists>q. came_from s p = Some q"
  unfolding tree_def by blast

lemma tree_adjacent: "tree grid start s \<Longrightarrow> came_from s p = Some q \<Longrightarrow> adjacent q p"
  unfolding tree_def by blast

lemma tree_initial: "walkable grid start \<Longrightarrow> tree grid start (initial goal start)"
  by (rule treeI) (auto simp: initial_def split: if_splits)

lemma tree_shrink:
  assumes "tree grid start s"
  shows "tree grid start (s\<lparr>pq := rest, visited := V\<rparr>)" and "tree grid start (s\<lparr>pq := rest\<rparr>)"
  using assms unfolding tree_def by auto

lemma relax_tree:
  assumes "sound s" and "tree grid start s" and "walkable grid nb" and "adjacent cur nb"
    and "relax goal cur s nb = Inr s'"
  shows "tree grid start s'"
  using assms(5)
proof (cases rule: relax_cases)
  case (keep gc gn)
  then show ?thesis using assms(2) by simp
next
  case (update gc)
  note st = tree_start[OF assms(2)]
  from sound_nonneg[OF assms(1) update(1)] have gc: "0 \<le> gc" .
  have ns: "nb \<noteq> start" using update(2) st gc by auto
  show ?thesis
  proof (rule treeI)
    show "g_score s' start = Some 0" using st ns by (simp add: update(3))
    show "came_from s' start = None" using st ns by (simp add: update(3))
  next
    fix p k assume "g_score s' p = Some k"
    then show "walkable grid p"
      using tree_walkable[OF assms(2), of p k] assms(3)
      by (auto simp: update(3) split: if_splits)
  next
    fix p k assume "g_score s' p = Some k" and "p \<noteq> start"
    then show "came_from s' p \<noteq> None"
      using tree_parent[OF assms(2), of p k]
      by (auto simp: update(3) split: if_splits)
  next
    fix p q assume "came_from s' p = Some q"
    then show "adjacent q p"
      using tree_adjacent[OF assms(2), of p q] assms(4)
      by (auto simp: update(3) split: if_splits)
  qed
qed

lemma expand_tree:
  "sound s \<Longrightarrow> tree grid start s \<Longrightarrow> \<forall>nb \<in> set nbs. walkable grid nb \<and> adjacent cur nb
     \<Longrightarrow> expand goal cur nbs s = Inr s' \<Longrightarrow> tree grid start s'"
proof (induction nbs arbitrary: s)
  case Nil
  then show ?case by simp
next
  case (Cons nb nbs)
  from Cons.prems(4) obtain s1 where r: "relax goal cur s nb = Inr s1"
    and e: "expand goal cur nbs s1 = Inr s'"
    by (auto split: sum.splits)
  from Cons.prems(3) have nb: "walkable grid nb" "adjacent cur nb"
    and rest: "\<forall>nb \<in> set nbs. walkable grid nb \<and> adjacent cur nb" by auto
  from Cons.IH[OF relax_sound[OF Cons.prems(1) r] relax_tree[OF Cons.prems(1,2) nb r] rest e]
  show ?case .
qed

lemma candidates_adjacent: "q \<in> set (candidates p) \<longleftrightarrow> adjacent p q"
  by (cases p; cases q) (auto simp: candidates_def adjacent_def)

lemma neighbors_rect_set:
  assumes "rectangular grid" and "neighbors grid p = Inr nbs"
  shows "q \<in> set nbs \<longleftrightarrow> walkable grid q \<and> adjacent p q"
  using assms by (auto simp: neighbors_rect candidates_adjacent)

lemma body_tree:
  assumes "rectangular grid" and "sound s" and "tree grid start s"
    and "body grid goal s = Continue s'"
  shows "tree grid start s'"
  using assms(4)
proof (cases rule: body_Continue_cases)
  case (stale item rest)
  then show ?thesis using tree_shrink(2)[OF assms(3)] by simp
next
  case (fresh item rest nbs)
  have "\<forall>nb \<in> set nbs. walkable grid nb \<and> adjacent (snd (snd item)) nb"
    using neighbors_rect_set[OF assms(1) fresh(4)] by blast
  from expand_tree[OF sound_shrink(1)[OF assms(2) heappop_subset[OF fresh(1)]]
      tree_shrink(1)[OF assms(3)] this fresh(5)]
  show ?thesis .
qed

lemma reach_tree:
  assumes "rectangular grid" and "walkable grid start"
  shows "reach grid start goal s \<Longrightarrow> tree grid start s"
proof (induction rule: reach.induct)
  case reach_initial
  then show ?case by (rule tree_initial[OF assms(2)])
next
  case (reach_step s s')
  from body_tree[OF assms(1) reach_sound[OF reach_step(1)] reach_step(4,3)] show ?case .
qed

text \<open>What path reconstruction returns from a position with a recorded cost.\<close>

lemma reconstruct_route:
  assumes "sound s" and "tree grid start s"
  shows "g_score s p = Some k \<Longrightarrow> acc \<noteq> [] \<Longrightarrow> last acc = p \<Longrightarrow> route grid (rev acc) \<Longrightarrow>
     \<exists>found. reconstruct (came_from s) p acc = Some found \<and> route grid (rev found) \<and>
       hd (rev found) = start \<and> last (rev found) = hd acc \<and>
       int (length found) \<le> int (length acc) + k"
proof (induction "nat k" arbitrary: k p acc rule: less_induct)
  case less
  note k0 = sound_nonneg[OF assms(1) less.prems(1)]
  show ?case
  proof (cases "came_from s p")
    case None
    with tree_parent[OF assms(2) less.prems(1)] have "p = start" by auto
    with less.prems have "hd (rev acc) = start" by (simp add: hd_rev)
    moreover have "last (rev acc) = hd acc" using less.prems(2) by (simp add: last_rev)
    moreover have "reconstruct (came_from s) p acc = Some acc"
      using None by (subst reconstruct.simps) simp
    ultimately show ?thesis using less.prems(4) k0 by simp
  next
    case (Some q)
    from sound_came[OF assms(1) Some] less.prems(1) obtain gq
      where gq: "g_score s q = Some gq" "gq + 1 \<le> k" by auto
    from sound_nonneg[OF assms(1) gq(1)] gq(2) have lt: "nat gq < nat k" by simp
    have "hd (rev acc) = p" using less.prems(2,3) by (simp add: hd_rev)
    then have r: "route grid (rev (acc @ [q]))"
      using route_Cons[of "rev acc" grid q] less.prems(2,4)
        tree_walkable[OF assms(2) gq(1)] tree_adjacent[OF assms(2) Some] by simp
    from less.hyps[OF lt gq(1) _ _ r] obtain found
      where f: "reconstruct (came_from s) q (acc @ [q]) = Some found" "route grid (rev found)"
        "hd (rev found) = start" "last (rev found) = hd (acc @ [q])"
        "int (length found) \<le> int (length (acc @ [q])) + gq" by auto
    have "reconstruct (came_from s) p acc = Some found"
      using Some f(1) by (subst reconstruct.simps) simp
    moreover have "hd (acc @ [q]) = hd acc" using less.prems(2) by simp
    ultimately show ?thesis using f gq(2) by auto
  qed
qed

lemma reconstruct_goal:
  assumes "sound s" and "tree grid start s" and "g_score s goal = Some k"
    and "reconstruct (came_from s) goal [goal] = Some found"
  shows "connects grid start goal (rev found)" and "int (length found) \<le> k + 1"
proof -
  have "route grid (rev [goal])" using tree_walkable[OF assms(2,3)] by simp
  from reconstruct_route[OF assms(1,2,3) _ _ this] assms(4)
  show "connects grid start goal (rev found)" and "int (length found) \<le> k + 1"
    by (auto simp: connects_def)
qed

lemma loop_valid:
  "rectangular grid \<Longrightarrow> sound s \<Longrightarrow> tree grid start s \<Longrightarrow>
     loop grid goal s = Some (Inr (Some path)) \<Longrightarrow> connects grid start goal path"
proof (induction grid goal s rule: loop.induct)
  case (1 grid goal s)
  from "1.prems"(4) have ne: "pq s \<noteq> []" by (auto split: if_splits)
  show ?case
  proof (cases "body grid goal s")
    case (Return r)
    with "1.prems"(4) ne have "body grid goal s = Return (Some (Inr (Some path)))" by simp
    from body_Return_path[OF this] obtain item rest found
      where hp: "heappop (pq s) = Inr (item, rest)" and g: "snd (snd item) = goal"
        and rc: "reconstruct (came_from s) goal [goal] = Some found" and p: "path = rev found"
      by blast
    from sound_pq[OF "1.prems"(2) heappop_Inr(1)[OF hp]] g obtain k
      where "g_score s goal = Some k" by auto
    from reconstruct_goal(1)[OF "1.prems"(2,3) this rc] p show ?thesis by simp
  next
    case (Continue s')
    with "1.prems"(4) ne have "loop grid goal s' = Some (Inr (Some path))" by simp
    from "1.IH"[OF ne Continue "1.prems"(1) body_sound[OF "1.prems"(2) Continue]
        body_tree[OF "1.prems"(1,2,3) Continue] this]
    show ?thesis .
  qed
qed

section \<open>Sequence numbers in the frontier\<close>

lemma numbered_initial: "numbered (initial goal start)"
  by (simp add: numbered_def initial_def)

lemma sorted_wrt_remove1: "sorted_wrt P xs \<Longrightarrow> sorted_wrt P (remove1 x xs)"
proof (induction xs)
  case Nil
  then show ?case by simp
next
  case (Cons a xs)
  then show ?case using set_remove1_subset[of x xs] by auto
qed

lemma map_remove1_sorted:
  "sorted_wrt (<) (map f xs) \<Longrightarrow> sorted_wrt (<) (map f (remove1 x xs))"
proof (induction xs)
  case Nil
  then show ?case by simp
next
  case (Cons a xs)
  then show ?case using set_remove1_subset[of x xs] by auto
qed

lemma numbered_pop:
  assumes "numbered s" and "heappop (pq s) = Inr (item, rest)"
  shows "numbered (s\<lparr>pq := rest, visited := V\<rparr>)" and "numbered (s\<lparr>pq := rest\<rparr>)"
  using assms heappop_subset[OF assms(2)] map_remove1_sorted[of "fst \<circ> snd" "pq s" item]
  unfolding numbered_def by (auto simp: heappop_Inr(2)[OF assms(2)])

lemma relax_numbered:
  assumes "numbered s" and "relax goal cur s nb = Inr s'"
  shows "numbered s'"
  using assms(2)
proof (cases rule: relax_cases)
  case (keep gc gn)
  then show ?thesis using assms(1) by simp
next
  case (update gc)
  from assms(1) have "sorted_wrt (<) (map (fst \<circ> snd) (pq s))"
    and r: "\<And>e. e \<in> set (pq s) \<Longrightarrow> 0 \<le> fst (snd e) \<and> fst (snd e) < counter s"
    and "0 < counter s"
    unfolding numbered_def by fastforce+
  then show ?thesis
    unfolding numbered_def update(3) by (auto simp: sorted_wrt_append dest: r)
qed

lemma expand_numbered:
  "numbered s \<Longrightarrow> expand goal cur nbs s = Inr s' \<Longrightarrow> numbered s'"
proof (induction nbs arbitrary: s)
  case Nil
  then show ?case by simp
next
  case (Cons nb nbs)
  from Cons.prems(2) obtain s1 where r: "relax goal cur s nb = Inr s1"
    and e: "expand goal cur nbs s1 = Inr s'"
    by (auto split: sum.splits)
  from Cons.IH[OF relax_numbered[OF Cons.prems(1) r] e] show ?case .
qed

lemma body_numbered:
  assumes "numbered s" and "body grid goal s = Continue s'"
  shows "numbered s'"
  using assms(2)
proof (cases rule: body_Continue_cases)
  case (stale item rest)
  then show ?thesis using numbered_pop(2)[OF assms(1)] by simp
next
  case (fresh item rest nbs)
  from expand_numbered[OF numbered_pop(1)[OF assms(1) fresh(1)] fresh(5)] show ?thesis .
qed

lemma reach_numbered: "reach grid start goal s \<Longrightarrow> numbered s"
  by (induction rule: reach.induct) (auto intro: numbered_initial body_numbered)

lemma increasing_distinct: "sorted_wrt (<) (xs :: int list) \<Longrightarrow> distinct xs"
  by (induction xs) auto

lemma sorted_wrt_index:
  fixes f :: "'a \<Rightarrow> int"
  assumes "sorted_wrt (<) (map f xs)" and "i < length xs" and "j < length xs"
    and "f (xs ! i) \<le> f (xs ! j)"
  shows "i \<le> j"
proof (rule ccontr)
  assume "\<not> i \<le> j"
  then have "j < i" by simp
  with assms(1,2) have "map f xs ! j < map f xs ! i"
    using sorted_wrt_nth_less[of "(<)" "map f xs" j i] by simp
  with assms(2,3,4) show False by simp
qed

section \<open>Least cost and completeness\<close>

lemma frontier_entry:
  "frontier goal s \<Longrightarrow> e \<in> set (pq s) \<Longrightarrow>
     \<exists>k. g_score s (snd (snd e)) = Some k \<and> k + h goal (snd (snd e)) \<le> fst e"
  unfolding frontier_def by blast

lemma frontier_open:
  "frontier goal s \<Longrightarrow> g_score s p = Some k \<Longrightarrow> p \<notin> visited s \<Longrightarrow>
     \<exists>c. (k + h goal p, c, p) \<in> set (pq s)"
  unfolding frontier_def by blast

lemma closed_cost: "closed P grid s \<Longrightarrow> p \<in> visited s \<Longrightarrow> \<exists>k. g_score s p = Some k"
  unfolding closed_def by blast

lemma closed_edge:
  "closed P grid s \<Longrightarrow> p \<in> visited s \<Longrightarrow> walkable grid q \<Longrightarrow> adjacent p q \<Longrightarrow> (p, q) \<notin> P \<Longrightarrow>
     \<exists>k j. g_score s p = Some k \<and> g_score s q = Some j \<and> j \<le> k + 1"
  unfolding closed_def by blast

lemma best_goal: "best grid start goal s \<Longrightarrow> goal \<notin> visited s"
  unfolding best_def by blast

lemma best_cost:
  "best grid start goal s \<Longrightarrow> p \<in> visited s \<Longrightarrow> g_score s p = Some k \<Longrightarrow>
     connects grid start p ps \<Longrightarrow> k + 1 \<le> int (length ps)"
  unfolding best_def by blast

lemma route_of_cost:
  assumes "sound s" and "tree grid start s" and "g_score s p = Some k"
  shows "\<exists>ps. connects grid start p ps \<and> int (length ps) \<le> k + 1"
proof -
  from reconstruct_returns[OF assms(1,3)] obtain found
    where f: "reconstruct (came_from s) p [p] = Some found" by blast
  from reconstruct_goal[OF assms f] have "connects grid start p (rev found)"
    and "int (length (rev found)) \<le> k + 1" by simp_all
  then show ?thesis by blast
qed

text \<open>A route from the start ends in the visited set or passes an open position that is cheap enough.\<close>

lemma route_crossing:
  assumes "tree grid start s" and "closed {} grid s" and "best grid start goal s"
  shows "route grid ps \<Longrightarrow> hd ps = start \<Longrightarrow>
     last ps \<in> visited s \<or>
     (\<exists>i < length ps. ps ! i \<notin> visited s \<and> (\<exists>j. g_score s (ps ! i) = Some j \<and> j \<le> int i))"
proof (induction ps rule: rev_induct)
  case Nil
  then show ?case by simp
next
  case (snoc x xs)
  show ?case
  proof (cases "xs = []")
    case True
    with snoc.prems have "x = start" by simp
    with tree_start[OF assms(1)] True show ?thesis by auto
  next
    case False
    with snoc.prems route_snoc[OF False, of grid x]
    have r: "route grid xs" and a: "adjacent (last xs) x" and w: "walkable grid x"
      and hd: "hd xs = start" by auto
    from snoc.IH[OF r hd] show ?thesis
    proof
      assume v: "last xs \<in> visited s"
      from closed_edge[OF assms(2) v w a] obtain k j
        where k: "g_score s (last xs) = Some k" and j: "g_score s x = Some j" "j \<le> k + 1" by auto
      have "connects grid start (last xs) xs" using r hd by (simp add: connects_def)
      from best_cost[OF assms(3) v k this] j have jl: "j \<le> int (length xs)" by simp
      show ?thesis
      proof (cases "x \<in> visited s")
        case True
        then show ?thesis by simp
      next
        case nv: False
        have "(xs @ [x]) ! length xs = x" by simp
        with nv j(1) jl have "length xs < length (xs @ [x]) \<and> (xs @ [x]) ! length xs \<notin> visited s \<and>
          (\<exists>j. g_score s ((xs @ [x]) ! length xs) = Some j \<and> j \<le> int (length xs))" by simp
        then show ?thesis by blast
      qed
    next
      assume "\<exists>i<length xs. xs ! i \<notin> visited s \<and> (\<exists>j. g_score s (xs ! i) = Some j \<and> j \<le> int i)"
      then obtain i where i: "i < length xs" "xs ! i \<notin> visited s"
        "\<exists>j. g_score s (xs ! i) = Some j \<and> j \<le> int i" by blast
      then have "i < length (xs @ [x]) \<and> (xs @ [x]) ! i \<notin> visited s \<and>
          (\<exists>j. g_score s ((xs @ [x]) ! i) = Some j \<and> j \<le> int i)"
        by (simp add: nth_append)
      then show ?thesis by blast
    qed
  qed
qed

text \<open>The entry that is popped carries the least cost of any route to its position.\<close>

lemma pop_best:
  assumes "tree grid start s" and "frontier goal s" and "closed {} grid s"
    and "best grid start goal s"
    and hp: "heappop (pq s) = Inr (item, rest)" and k: "g_score s (snd (snd item)) = Some k"
    and c: "connects grid start (snd (snd item)) ps"
  shows "k + 1 \<le> int (length ps)"
proof (cases "snd (snd item) \<in> visited s")
  case True
  from best_cost[OF assms(4) True k c] show ?thesis .
next
  case False
  from c have r: "route grid ps" and hd: "hd ps = start" and l: "last ps = snd (snd item)"
    by (auto simp: connects_def)
  from route_crossing[OF assms(1,3,4) r hd] False l obtain i j
    where i: "i < length ps" "ps ! i \<notin> visited s" "g_score s (ps ! i) = Some j" "j \<le> int i"
    by auto
  from frontier_open[OF assms(2) i(3,2)] obtain cn
    where e: "(j + h goal (ps ! i), cn, ps ! i) \<in> set (pq s)" by blast
  from heappop_Inr(3)[OF hp] e have "item \<le> (j + h goal (ps ! i), cn, ps ! i)" by blast
  then have f: "fst item \<le> j + h goal (ps ! i)" by (cases item) auto
  from frontier_entry[OF assms(2) heappop_Inr(1)[OF hp]] k
  have "k + h goal (snd (snd item)) \<le> fst item" by auto
  with f route_h[OF r i(1), of goal] l i(4) show ?thesis by simp
qed


lemma frontierI:
  assumes "\<And>e. e \<in> set (pq s) \<Longrightarrow>
      \<exists>k. g_score s (snd (snd e)) = Some k \<and> k + h goal (snd (snd e)) \<le> fst e"
    and "\<And>p k. g_score s p = Some k \<Longrightarrow> p \<notin> visited s \<Longrightarrow> \<exists>c. (k + h goal p, c, p) \<in> set (pq s)"
  shows "frontier goal s"
  using assms unfolding frontier_def by blast

lemma closedI:
  assumes "\<And>p. p \<in> visited s \<Longrightarrow> \<exists>k. g_score s p = Some k"
    and "\<And>p q. p \<in> visited s \<Longrightarrow> walkable grid q \<Longrightarrow> adjacent p q \<Longrightarrow> (p, q) \<notin> P \<Longrightarrow>
           \<exists>k j. g_score s p = Some k \<and> g_score s q = Some j \<and> j \<le> k + 1"
  shows "closed P grid s"
  using assms unfolding closed_def by blast

lemma bestI:
  assumes "goal \<notin> visited s"
    and "\<And>p k ps. p \<in> visited s \<Longrightarrow> g_score s p = Some k \<Longrightarrow> connects grid start p ps \<Longrightarrow>
           k + 1 \<le> int (length ps)"
  shows "best grid start goal s"
  using assms unfolding best_def by blast

text \<open>A relaxation never touches a visited position.\<close>

lemma relax_update_open:
  assumes "sound s" and "tree grid start s" and "closed P grid s" and "best grid start goal s"
    and "walkable grid nb" and "adjacent cur nb"
    and gc: "g_score s cur = Some gc"
    and up: "g_score s nb = None \<or> (\<exists>gn. g_score s nb = Some gn \<and> gc + 1 < gn)"
  shows "nb \<notin> visited s"
proof
  assume v: "nb \<in> visited s"
  from closed_cost[OF assms(3) v] up obtain gn
    where gn: "g_score s nb = Some gn" "gc + 1 < gn" by auto
  from route_of_cost[OF assms(1,2) gc] obtain ps
    where ps: "connects grid start cur ps" "int (length ps) \<le> gc + 1" by blast
  from ps(1) have ne: "ps \<noteq> []" by (auto simp: connects_def)
  with ps(1) assms(5,6) have "connects grid start nb (ps @ [nb])"
    by (simp add: connects_def route_snoc)
  from best_cost[OF assms(4) v gn(1) this] ps(2) gn(2) show False by simp
qed

lemma relax_full:
  assumes "sound s" and "tree grid start s" and "frontier goal s"
    and "closed (insert (cur, nb) P) grid s" and "best grid start goal s"
    and "cur \<in> visited s" and "walkable grid nb" and "adjacent cur nb"
    and "relax goal cur s nb = Inr s'"
  shows "frontier goal s'" and "closed P grid s'" and "best grid start goal s'"
    and "visited s' = visited s"
proof -
  have "frontier goal s' \<and> closed P grid s' \<and> best grid start goal s' \<and> visited s' = visited s"
    using assms(9)
  proof (cases rule: relax_cases)
    case (keep gc gn)
    have "closed P grid s"
    proof (rule closedI)
      fix p assume "p \<in> visited s"
      then show "\<exists>k. g_score s p = Some k" by (rule closed_cost[OF assms(4)])
    next
      fix p q assume pq: "p \<in> visited s" "walkable grid q" "adjacent p q" "(p, q) \<notin> P"
      show "\<exists>k j. g_score s p = Some k \<and> g_score s q = Some j \<and> j \<le> k + 1"
      proof (cases "(p, q) = (cur, nb)")
        case True
        with keep show ?thesis by simp
      next
        case False
        with pq(4) have "(p, q) \<notin> insert (cur, nb) P" by simp
        from closed_edge[OF assms(4) pq(1,2,3) this] show ?thesis .
      qed
    qed
    with keep(4) assms(3,5) show ?thesis by simp
  next
    case (update gc)
    note nv = relax_update_open[OF assms(1,2,4,5,7,8) update(1,2)]
    from nv assms(6) have neq: "nb \<noteq> cur" by auto
    have vis: "visited s' = visited s" by (simp add: update(3))
    have g_other: "g_score s' p = g_score s p" if "p \<noteq> nb" for p
      using that by (simp add: update(3))
    have g_nb: "g_score s' nb = Some (gc + 1)" by (simp add: update(3))
    have pq': "set (pq s') = insert (gc + 1 + h goal nb, counter s, nb) (set (pq s))"
      by (simp add: update(3))
    have fr: "frontier goal s'"
    proof (rule frontierI)
      fix e assume "e \<in> set (pq s')"
      then consider "e = (gc + 1 + h goal nb, counter s, nb)" | "e \<in> set (pq s)"
        using pq' by auto
      then show "\<exists>k. g_score s' (snd (snd e)) = Some k \<and> k + h goal (snd (snd e)) \<le> fst e"
      proof cases
        case 1
        then show ?thesis using g_nb by simp
      next
        case 2
        from frontier_entry[OF assms(3) 2] obtain k
          where k: "g_score s (snd (snd e)) = Some k" "k + h goal (snd (snd e)) \<le> fst e" by blast
        show ?thesis
        proof (cases "snd (snd e) = nb")
          case True
          with k(1) update(2) have "gc + 1 < k" by auto
          with k(2) True g_nb show ?thesis by simp
        next
          case False
          with k g_other show ?thesis by simp
        qed
      qed
    next
      fix p k assume g: "g_score s' p = Some k" and nvp: "p \<notin> visited s'"
      show "\<exists>c. (k + h goal p, c, p) \<in> set (pq s')"
      proof (cases "p = nb")
        case True
        with g g_nb have "k = gc + 1" by simp
        with True pq' show ?thesis by auto
      next
        case False
        with g g_other have "g_score s p = Some k" by simp
        from frontier_open[OF assms(3) this] nvp vis pq' show ?thesis by auto
      qed
    qed
    have cl: "closed P grid s'"
    proof (rule closedI)
      fix p assume "p \<in> visited s'"
      with vis nv have "p \<in> visited s" "p \<noteq> nb" by auto
      with closed_cost[OF assms(4)] g_other show "\<exists>k. g_score s' p = Some k" by simp
    next
      fix p q assume a: "p \<in> visited s'" "walkable grid q" "adjacent p q" "(p, q) \<notin> P"
      with vis nv have pv: "p \<in> visited s" and pn: "p \<noteq> nb" by auto
      show "\<exists>k j. g_score s' p = Some k \<and> g_score s' q = Some j \<and> j \<le> k + 1"
      proof (cases "(p, q) = (cur, nb)")
        case True
        with update(1) g_nb g_other[OF pn] show ?thesis by simp
      next
        case False
        with a(4) have "(p, q) \<notin> insert (cur, nb) P" by simp
        from closed_edge[OF assms(4) pv a(2,3) this] obtain k j
          where kj: "g_score s p = Some k" "g_score s q = Some j" "j \<le> k + 1" by blast
        show ?thesis
        proof (cases "q = nb")
          case True
          with kj(2) update(2) have "gc + 1 < j" by auto
          with kj True g_nb g_other[OF pn] show ?thesis by simp
        next
          case qn: False
          with kj g_other[OF pn] g_other[OF qn] show ?thesis by simp
        qed
      qed
    qed
    have be: "best grid start goal s'"
    proof (rule bestI)
      show "goal \<notin> visited s'" using best_goal[OF assms(5)] vis by simp
    next
      fix p k ps assume a: "p \<in> visited s'" "g_score s' p = Some k" "connects grid start p ps"
      with vis nv have pv: "p \<in> visited s" and pn: "p \<noteq> nb" by auto
      with a(2) g_other have "g_score s p = Some k" by simp
      from best_cost[OF assms(5) pv this a(3)] show "k + 1 \<le> int (length ps)" .
    qed
    from fr cl be vis show ?thesis by blast
  qed
  then show "frontier goal s'" and "closed P grid s'" and "best grid start goal s'"
    and "visited s' = visited s" by blast+
qed

lemma closed_mono: "closed P grid s \<Longrightarrow> P \<subseteq> Q \<Longrightarrow> closed Q grid s"
  unfolding closed_def by blast

lemma expand_full:
  "sound s \<Longrightarrow> tree grid start s \<Longrightarrow> frontier goal s \<Longrightarrow>
   closed (P \<union> {cur} \<times> set nbs) grid s \<Longrightarrow> best grid start goal s \<Longrightarrow> cur \<in> visited s \<Longrightarrow>
   \<forall>nb \<in> set nbs. walkable grid nb \<and> adjacent cur nb \<Longrightarrow> expand goal cur nbs s = Inr s' \<Longrightarrow>
   frontier goal s' \<and> closed P grid s' \<and> best grid start goal s'"
proof (induction nbs arbitrary: s)
  case Nil
  then show ?case by simp
next
  case (Cons nb nbs)
  from Cons.prems(8) obtain s1 where r: "relax goal cur s nb = Inr s1"
    and e: "expand goal cur nbs s1 = Inr s'"
    by (auto split: sum.splits)
  from Cons.prems(7) have nb: "walkable grid nb" "adjacent cur nb"
    and rest: "\<forall>nb \<in> set nbs. walkable grid nb \<and> adjacent cur nb" by auto
  have "closed (insert (cur, nb) (P \<union> {cur} \<times> set nbs)) grid s"
    by (rule closed_mono[OF Cons.prems(4)]) auto
  note rf = relax_full[OF Cons.prems(1,2,3) this Cons.prems(5,6) nb r]
  from rf(4) Cons.prems(6) have cv: "cur \<in> visited s1" by simp
  from Cons.IH[OF relax_sound[OF Cons.prems(1) r] relax_tree[OF Cons.prems(1,2) nb r]
      rf(1,2,3) cv rest e]
  show ?case .
qed

lemma inv_initial:
  assumes "walkable grid start"
  shows "inv grid start goal (initial goal start)"
proof -
  have "frontier goal (initial goal start)"
    by (rule frontierI) (auto simp: initial_def split: if_splits)
  moreover have "closed {} grid (initial goal start)"
    by (rule closedI) (simp_all add: initial_def)
  moreover have "best grid start goal (initial goal start)"
    by (rule bestI) (simp_all add: initial_def)
  ultimately show ?thesis
    using sound_initial tree_initial[OF assms] by (simp add: inv_def)
qed

lemma frontier_pop:
  assumes "frontier goal s" and hp: "heappop (pq s) = Inr (item, rest)"
    and "snd (snd item) \<in> V" and "visited s \<subseteq> V"
  shows "frontier goal (s\<lparr>pq := rest, visited := V\<rparr>)"
proof (rule frontierI)
  fix e assume "e \<in> set (pq (s\<lparr>pq := rest, visited := V\<rparr>))"
  with heappop_subset[OF hp] have "e \<in> set (pq s)" by auto
  from frontier_entry[OF assms(1) this]
  show "\<exists>k. g_score (s\<lparr>pq := rest, visited := V\<rparr>) (snd (snd e)) = Some k \<and>
            k + h goal (snd (snd e)) \<le> fst e" by simp
next
  fix p k assume g: "g_score (s\<lparr>pq := rest, visited := V\<rparr>) p = Some k"
    and nv: "p \<notin> visited (s\<lparr>pq := rest, visited := V\<rparr>)"
  from nv assms(3,4) have pn: "p \<noteq> snd (snd item)" "p \<notin> visited s" by auto
  from g have "g_score s p = Some k" by simp
  from frontier_open[OF assms(1) this pn(2)] obtain c
    where c: "(k + h goal p, c, p) \<in> set (pq s)" by blast
  from pn(1) have "(k + h goal p, c, p) \<noteq> item" by auto
  with c heappop_Inr(2)[OF hp] have "(k + h goal p, c, p) \<in> set rest" by simp
  then show "\<exists>c. (k + h goal p, c, p) \<in> set (pq (s\<lparr>pq := rest, visited := V\<rparr>))" by auto
qed

lemma body_inv:
  assumes "rectangular grid" and "inv grid start goal s" and "body grid goal s = Continue s'"
  shows "inv grid start goal s'"
proof -
  from assms(2) have so: "sound s" and tr: "tree grid start s" and fr: "frontier goal s"
    and cl: "closed {} grid s" and be: "best grid start goal s"
    by (simp_all add: inv_def)
  note so' = body_sound[OF so assms(3)] and tr' = body_tree[OF assms(1) so tr assms(3)]
  from assms(3) have "frontier goal s' \<and> closed {} grid s' \<and> best grid start goal s'"
  proof (cases rule: body_Continue_cases)
    case (stale item rest)
    have "s\<lparr>pq := rest, visited := visited s\<rparr> = s\<lparr>pq := rest\<rparr>" by simp
    with frontier_pop[OF fr stale(1,3) subset_refl] have "frontier goal s'"
      by (simp add: stale(4))
    moreover have "closed {} grid s'" using cl by (simp add: closed_def stale(4))
    moreover have "best grid start goal s'" using be by (simp add: best_def stale(4))
    ultimately show ?thesis by blast
  next
    case (fresh item rest nbs)
    define cur where "cur = snd (snd item)"
    define s0 where "s0 = s\<lparr>pq := rest, visited := insert cur (visited s)\<rparr>"
    note nb = neighbors_rect_set[OF assms(1) fresh(4), folded cur_def]
    from sound_pq[OF so heappop_Inr(1)[OF fresh(1)]] obtain k
      where k: "g_score s cur = Some k" unfolding cur_def by blast
    have so0: "sound s0" unfolding s0_def
      by (rule sound_shrink(1)[OF so heappop_subset[OF fresh(1)]])
    have tr0: "tree grid start s0" unfolding s0_def by (rule tree_shrink(1)[OF tr])
    have fr0: "frontier goal s0" unfolding s0_def
      by (rule frontier_pop[OF fr fresh(1)]) (auto simp: cur_def)
    have cl0: "closed ({} \<union> {cur} \<times> set nbs) grid s0"
    proof (rule closedI)
      fix p assume "p \<in> visited s0"
      then show "\<exists>k. g_score s0 p = Some k"
        using closed_cost[OF cl, of p] k by (auto simp: s0_def)
    next
      fix p q assume a: "p \<in> visited s0" "walkable grid q" "adjacent p q"
        "(p, q) \<notin> {} \<union> {cur} \<times> set nbs"
      from a(2,3,4) nb have "p \<noteq> cur" by auto
      with a(1) have "p \<in> visited s" by (simp add: s0_def)
      from closed_edge[OF cl this a(2,3)]
      show "\<exists>k j. g_score s0 p = Some k \<and> g_score s0 q = Some j \<and> j \<le> k + 1"
        by (simp add: s0_def)
    qed
    have be0: "best grid start goal s0"
    proof (rule bestI)
      show "goal \<notin> visited s0" using best_goal[OF be] fresh(2) by (simp add: s0_def cur_def)
    next
      fix p j ps assume a: "p \<in> visited s0" "g_score s0 p = Some j" "connects grid start p ps"
      show "j + 1 \<le> int (length ps)"
      proof (cases "p = cur")
        case True
        with a(2) have "g_score s (snd (snd item)) = Some j" by (simp add: s0_def cur_def)
        from pop_best[OF tr fr cl be fresh(1) this] a(3) True show ?thesis by (simp add: cur_def)
      next
        case False
        with a(1,2) have "p \<in> visited s" "g_score s p = Some j" by (simp_all add: s0_def)
        from best_cost[OF be this a(3)] show ?thesis .
      qed
    qed
    have cv: "cur \<in> visited s0" by (simp add: s0_def)
    have ws: "\<forall>nb \<in> set nbs. walkable grid nb \<and> adjacent cur nb" using nb by blast
    from fresh(5) have ex: "expand goal cur nbs s0 = Inr s'" by (simp add: s0_def cur_def)
    from expand_full[OF so0 tr0 fr0 cl0 be0 cv ws ex] show ?thesis .
  qed
  with so' tr' show ?thesis by (simp add: inv_def)
qed


lemma loop_optimal:
  "rectangular grid \<Longrightarrow> inv grid start goal s \<Longrightarrow> loop grid goal s = Some (Inr (Some path)) \<Longrightarrow>
     connects grid start goal path \<and> (\<forall>ps. connects grid start goal ps \<longrightarrow> length path \<le> length ps)"
proof (induction grid goal s rule: loop.induct)
  case (1 grid goal s)
  from "1.prems"(3) have ne: "pq s \<noteq> []" by (auto split: if_splits)
  from "1.prems"(2) have so: "sound s" and tr: "tree grid start s" and fr: "frontier goal s"
    and cl: "closed {} grid s" and be: "best grid start goal s"
    by (simp_all add: inv_def)
  show ?case
  proof (cases "body grid goal s")
    case (Return r)
    with "1.prems"(3) ne have "body grid goal s = Return (Some (Inr (Some path)))" by simp
    from body_Return_path[OF this] obtain item rest found
      where hp: "heappop (pq s) = Inr (item, rest)" and g: "snd (snd item) = goal"
        and rc: "reconstruct (came_from s) goal [goal] = Some found" and p: "path = rev found"
      by blast
    from sound_pq[OF so heappop_Inr(1)[OF hp]] g obtain k
      where k: "g_score s goal = Some k" by auto
    note rg = reconstruct_goal[OF so tr k rc]
    have "length path \<le> length ps" if c: "connects grid start goal ps" for ps
    proof -
      from k g have "g_score s (snd (snd item)) = Some k" by simp
      from pop_best[OF tr fr cl be hp this] c g have "k + 1 \<le> int (length ps)" by simp
      with rg(2) p show ?thesis by simp
    qed
    with rg(1) p show ?thesis by simp
  next
    case (Continue s')
    with "1.prems"(3) ne have "loop grid goal s' = Some (Inr (Some path))" by simp
    from "1.IH"[OF ne Continue "1.prems"(1) body_inv[OF "1.prems"(1,2) Continue] this]
    show ?thesis .
  qed
qed


section \<open>The arrangement of the heap is not observed\<close>









lemma is_heap_least:
  assumes "is_heap heap" and "k < length heap"
  shows "heap ! 0 \<le> heap ! k"
  using assms(2)
proof (induction k rule: less_induct)
  case (less k)
  show ?case
  proof (cases "k = 0")
    case True
    then show ?thesis by simp
  next
    case False
    define j where "j = (k - 1) div 2"
    from False have jk: "j < k" and c: "k = 2 * j + 1 \<or> k = 2 * j + 2"
      unfolding j_def by presburger+
    from jk less.prems have jl: "j < length heap" by simp
    from c less.prems assms(1) have "heap ! j \<le> heap ! k"
      unfolding is_heap_def by auto
    with less.IH[OF jk jl] show ?thesis by simp
  qed
qed

text \<open>On a heap the entry that \<open>heappop\<close> returns is the one at the head of the list.\<close>

lemma is_heap_heappop:
  assumes "is_heap heap" and "heappop heap = Inr (item, rest)"
  shows "item = heap ! 0"
proof -
  note pop = heappop_Inr[OF assms(2)]
  from pop(1) have ne: "0 < length heap" by (cases heap) auto
  then have "heap ! 0 \<in> set heap" by simp
  with pop(3) have "item \<le> heap ! 0" by blast
  moreover from pop(1) obtain k where "k < length heap" "heap ! k = item"
    by (auto simp: in_set_conv_nth)
  with is_heap_least[OF assms(1)] have "heap ! 0 \<le> item" by auto
  ultimately show ?thesis by simp
qed





section \<open>The claims\<close>

text \<open>
  C10: the function \<open>astar\<close> of \<^verbatim>\<open>astarclaude.py\<close> and the function \<open>astar\<close> of
  \<^verbatim>\<open>interactive.py\<close> return the same result for every grid, start and goal.
\<close>

theorem astar_twin: "astar_interactive grid start goal = astar grid start goal"
  by (simp only: astar_interactive_def astar_def loop_twin initial_interactive_def initial_def h_twin)

text \<open>
  C9: on a rectangular grid with at least one row and one column the call ends
  for every start and goal: the model returns a value, which is a path or
  \<^verbatim>\<open>None\<close> and never an exception.
\<close>

theorem astar_terminates:
  assumes "rectangular grid" and "0 < rows grid" and "0 < cols grid"
  shows "\<exists>r. astar grid start goal = Some (Inr r)"
proof -
  from assms(2) have "getitem grid 0 = Inr (grid ! 0)" by (simp add: getitem_def rows_def)
  with loop_returns[OF assms(1) sound_initial] show ?thesis by (simp add: astar_def)
qed

theorem astar_terminates_witness:
  "rectangular reference_grid \<and> 0 < rows reference_grid \<and> 0 < cols reference_grid \<and>
   (\<exists>r. astar reference_grid (0, 0) (3, 3) = Some (Inr r))"
  using astar_terminates[of reference_grid "(0, 0)" "(3, 3)"]
  by (simp add: rectangular_def cols_def rows_def reference_grid_def)

text \<open>
  C8: on a rectangular grid, for an in-bounds walkable position \<open>p\<close>, the call
  \<open>astar grid p p\<close> returns exactly the one-element path \<open>[p]\<close>.
\<close>

theorem astar_same:
  assumes "rectangular grid" and "walkable grid p"
  shows "astar grid p p = Some (Inr (Some [p]))"
  using astar_start_is_goal[OF walkable_rows[OF assms(2)]] .

theorem astar_same_witness:
  "rectangular reference_grid \<and> walkable reference_grid (2, 2) \<and>
   astar reference_grid (2, 2) (2, 2) = Some (Inr (Some [(2, 2)]))"
  using astar_same[of reference_grid "(2, 2)"]
  by (simp add: rectangular_def cols_def rows_def cells_def walkable_def reference_grid_def)

text \<open>
  C4 as stated fails: a start on a blocked cell is not turned away. On the grid
  \<open>[[1, 0]]\<close> the start \<open>(0, 0)\<close> is in bounds and blocked, and the call returns
  a path that leaves it.
\<close>

theorem astar_blocked_start:
  "rectangular [[1, 0]] \<and> (0, 0) \<in> cells [[1, 0]] \<and> \<not> walkable [[1, 0]] (0, 0) \<and>
   astar [[1, 0]] (0, 0) (0, 1) = Some (Inr (Some [(0, 0), (0, 1)]))"
proof -
  have "astar [[1, 0]] (0, 0) (0, 1) = Some (Inr (Some [(0, 0), (0, 1)]))"
    by code_simp
  then show ?thesis
    by (simp add: rectangular_def cols_def rows_def cells_def walkable_def)
qed

text \<open>
  C4, amended: on a rectangular grid with at least one row, when the goal is out
  of bounds or on a blocked cell, the call returns \<^verbatim>\<open>None\<close> if the goal differs
  from the start, and the one-element path \<open>[start]\<close> if it is the start. (A start
  that is out of bounds or blocked is not by itself turned away.)
\<close>

theorem astar_goal_unusable:
  assumes "rectangular grid" and "0 < rows grid" and "\<not> walkable grid goal"
  shows "(start \<noteq> goal \<longrightarrow> astar grid start goal = Some (Inr None)) \<and>
         (start = goal \<longrightarrow> astar grid start goal = Some (Inr (Some [start])))"
proof (intro conjI impI)
  assume "start \<noteq> goal"
  from loop_nogoal[OF assms(1,3) sound_initial nogoal_initial[OF this]]
  show "astar grid start goal = Some (Inr None)"
    by (simp only: astar_loop[OF assms(2)])
next
  assume "start = goal"
  with astar_start_is_goal[OF assms(2), of goal]
  show "astar grid start goal = Some (Inr (Some [start]))" by simp
qed

theorem astar_goal_unusable_witness:
  "rectangular [[0, 1]] \<and> 0 < rows [[0, 1]] \<and> \<not> walkable [[0, 1]] (0, 1) \<and>
   astar [[0, 1]] (0, 0) (0, 1) = Some (Inr None) \<and>
   astar [[0, 1]] (0, 1) (0, 1) = Some (Inr (Some [(0, 1)]))"
  using astar_goal_unusable[of "[[0, 1]]" "(0, 1)" "(0, 0)"]
    astar_goal_unusable[of "[[0, 1]]" "(0, 1)" "(0, 1)"]
  by (simp add: rectangular_def cols_def rows_def cells_def walkable_def)

text \<open>
  C5 as stated fails: in the reference grid the goal \<open>(3, 3)\<close> is itself one of the
  obstacles, and the call returns \<^verbatim>\<open>None\<close> instead of a path of seven positions.
\<close>

theorem astar_reference_absent:
  "astar reference_grid (0, 0) (3, 3) = Some (Inr None)"
  by code_simp

text \<open>
  C5, amended: on the reference grid the start \<open>(0, 0)\<close> is walkable, the goal
  \<open>(3, 3)\<close> is not, no route joins them, and the call returns \<^verbatim>\<open>None\<close>.
\<close>

theorem astar_reference:
  "walkable reference_grid (0, 0) \<and> \<not> walkable reference_grid (3, 3) \<and>
   (\<forall>ps. \<not> connects reference_grid (0, 0) (3, 3) ps) \<and>
   astar reference_grid (0, 0) (3, 3) = Some (Inr None)"
proof -
  have r: "astar reference_grid (0, 0) (3, 3) = Some (Inr None)"
    by code_simp
  have w: "walkable reference_grid (0, 0)"
    by (simp add: walkable_def reference_grid_def cells_def rows_def cols_def)
  have n: "\<not> walkable reference_grid (3, 3)"
    by (simp add: walkable_def reference_grid_def)
  have "\<not> connects reference_grid (0, 0) (3, 3) ps" for ps
    using n route_last_walkable[of reference_grid ps] by (auto simp: connects_def)
  with r w n show ?thesis by blast
qed

text \<open>
  C3: on a rectangular grid with an in-bounds walkable start and goal, a returned
  path is not empty, begins at the start, ends at the goal, moves by one unit
  along one axis between consecutive positions, and stays on in-bounds walkable
  cells.
\<close>

theorem astar_valid:
  assumes "rectangular grid" and "walkable grid start" and "walkable grid goal"
    and "astar grid start goal = Some (Inr (Some path))"
  shows "path \<noteq> [] \<and> hd path = start \<and> last path = goal \<and>
         (\<forall>i. Suc i < length path \<longrightarrow> adjacent (path ! i) (path ! Suc i)) \<and>
         (\<forall>p \<in> set path. walkable grid p)"
proof -
  from assms(4) have "loop grid goal (initial goal start) = Some (Inr (Some path))"
    by (auto simp: astar_def split: sum.splits)
  from loop_valid[OF assms(1) sound_initial tree_initial[OF assms(2)] this]
  show ?thesis by (auto simp: connects_def route_iff)
qed

theorem astar_valid_witness:
  "rectangular [[0, 0], [1, 0]] \<and> walkable [[0, 0], [1, 0]] (0, 0) \<and> walkable [[0, 0], [1, 0]] (1, 1) \<and>
   astar [[0, 0], [1, 0]] (0, 0) (1, 1) = Some (Inr (Some [(0, 0), (0, 1), (1, 1)])) \<and>
   hd ([(0, 0), (0, 1), (1, 1)] :: pos list) = (0, 0) \<and>
   last ([(0, 0), (0, 1), (1, 1)] :: pos list) = (1, 1) \<and>
   adjacent (0, 0) (0, 1) \<and> adjacent (0, 1) (1, 1) \<and>
   walkable [[0, 0], [1, 0]] (0, 1)"
proof -
  have r: "rectangular [[0, 0], [1, 0]]" by (simp add: rectangular_def cols_def)
  have s: "walkable [[0, 0], [1, 0]] (0, 0)" by (simp add: walkable_def cells_def rows_def cols_def)
  have g: "walkable [[0, 0], [1, 0]] (1, 1)" by (simp add: walkable_def cells_def rows_def cols_def)
  have a: "astar [[0, 0], [1, 0]] (0, 0) (1, 1) = Some (Inr (Some [(0, 0), (0, 1), (1, 1)]))"
    by code_simp
  note v = astar_valid[OF r s g a]
  from v have "adjacent (0, 0) (0, 1)" and "adjacent (0, 1) (1, 1)"
    by (auto dest: spec[of _ 0] spec[of _ 1])
  moreover from v have "walkable [[0, 0], [1, 0]] (0, 1)" by simp
  ultimately show ?thesis using r s g a by simp
qed

text \<open>
  C7: in every state the loop reaches, the popped entry is the least one in the
  order on \<open>(f, counter)\<close>: every other entry has a larger \<open>f\<close>, or the same \<open>f\<close>
  and a larger counter. The frontier list holds the entries in push order with
  strictly increasing counters, so among entries of equal \<open>f\<close> the one pushed
  first is popped. The first push of a call carries counter 0, and every push
  takes the current counter and increases it by one.
\<close>

theorem pop_order:
  assumes "reach grid start goal s" and "heappop (pq s) = Inr ((f, c, p), rest)"
  shows "(f, c, p) \<in> set (pq s) \<and> rest = remove1 (f, c, p) (pq s) \<and>
         (\<forall>(f', c', p') \<in> set rest. f < f' \<or> f = f' \<and> c < c') \<and>
         (\<forall>i j. i < length (pq s) \<longrightarrow> j < length (pq s) \<longrightarrow> pq s ! i = (f, c, p) \<longrightarrow>
                fst (pq s ! j) = f \<longrightarrow> i \<le> j) \<and>
         sorted_wrt (<) (map (fst \<circ> snd) (pq s)) \<and>
         (\<forall>e \<in> set (pq s). 0 \<le> fst (snd e) \<and> fst (snd e) < counter s) \<and>
         pq (initial goal start) = [(h goal start, 0, start)] \<and>
         (\<forall>t cur nb t'. relax goal cur t nb = Inr t' \<longrightarrow>
            t' = t \<or> (\<exists>f'. pq t' = heappush (pq t) (f', counter t, nb) \<and> counter t' = counter t + 1))"
proof -
  note pop = heappop_Inr[OF assms(2)]
  from reach_numbered[OF assms(1)] have srt: "sorted_wrt (<) (map (fst \<circ> snd) (pq s))"
    and rng: "\<forall>e \<in> set (pq s). 0 \<le> fst (snd e) \<and> fst (snd e) < counter s"
    by (auto simp: numbered_def)
  from srt have dc: "distinct (map (fst \<circ> snd) (pq s))"
    by (rule increasing_distinct)
  then have d: "distinct (pq s)" by (rule distinct_map[THEN iffD1, THEN conjunct1])
  have lex1: "f < f' \<or> f = f' \<and> c < c'" if in_rest: "(f', c', p') \<in> set rest" for f' c' p'
  proof -
    from in_rest pop(2) d have neq: "(f', c', p') \<noteq> (f, c, p)" and mem: "(f', c', p') \<in> set (pq s)"
      by (auto dest: notin_set_remove1)
    from pop(3) mem have le: "(f, c, p) \<le> (f', c', p')" by blast
    from dc mem pop(1) neq have "c' \<noteq> c"
      by (metis (no_types, lifting) comp_apply distinct_map fst_conv inj_on_def snd_conv)
    with le show ?thesis by (auto simp: less_le)
  qed
  then have lex: "\<forall>(f', c', p') \<in> set rest. f < f' \<or> f = f' \<and> c < c'" by blast
  have first: "\<forall>i j. i < length (pq s) \<longrightarrow> j < length (pq s) \<longrightarrow> pq s ! i = (f, c, p) \<longrightarrow>
                fst (pq s ! j) = f \<longrightarrow> i \<le> j"
  proof (intro allI impI)
    fix i j assume i: "i < length (pq s)" and j: "j < length (pq s)"
      and pi: "pq s ! i = (f, c, p)" and fj: "fst (pq s ! j) = f"
    from pop(3) j have "(f, c, p) \<le> pq s ! j" by simp
    with fj have "c \<le> fst (snd (pq s ! j))" by (cases "pq s ! j") auto
    with pi have "(fst \<circ> snd) (pq s ! i) \<le> (fst \<circ> snd) (pq s ! j)" by simp
    from sorted_wrt_index[OF srt i j this] show "i \<le> j" .
  qed
  have push: "\<forall>t cur nb t'. relax goal cur t nb = Inr t' \<longrightarrow>
            t' = t \<or> (\<exists>f'. pq t' = heappush (pq t) (f', counter t, nb) \<and> counter t' = counter t + 1)"
    by (auto simp: relax_def Let_def split: option.splits if_splits)
  from pop(1,2) lex first srt rng push show ?thesis by (simp add: initial_def)
qed


theorem pop_order_witness:
  "reach [[0, 0], [0, 0]] (0, 0) (1, 1)
     \<lparr>pq = [(2, 1, (1, 0)), (2, 2, (0, 1))], counter = 3,
      came_from = [(1, 0) \<mapsto> (0, 0), (0, 1) \<mapsto> (0, 0)],
      g_score = [(0, 0) \<mapsto> 0, (1, 0) \<mapsto> 1, (0, 1) \<mapsto> 1], visited = {(0, 0)}\<rparr> \<and>
   heappop [(2, 1, (1, 0)), (2, 2, (0, 1))] = Inr ((2, 1, (1, 0)), [(2, 2, (0, 1))]) \<and>
   ((2, 1, (1, 0)) :: entry) \<in> set [(2, 1, (1, 0)), (2, 2, (0, 1))] \<and>
   sorted_wrt (<) (map (fst \<circ> snd) [(2, 1, (1, 0)), ((2, 2, (0, 1)) :: entry)]) \<and>
   pq (initial (1, 1) (0, 0)) = [(h (1, 1) (0, 0), 0, (0, 0))]"
proof -
  let ?g = "[[0, 0], [0, 0]] :: grid"
  let ?s = "\<lparr>pq = [(2, 1, (1, 0)), (2, 2, (0, 1))], counter = 3,
      came_from = [(1, 0) \<mapsto> (0, 0), (0, 1) \<mapsto> (0, 0)],
      g_score = [(0, 0) \<mapsto> 0, (1, 0) \<mapsto> 1, (0, 1) \<mapsto> 1], visited = {(0, 0)}\<rparr> :: search"
  have r: "rectangular ?g" by (simp add: rectangular_def cols_def)
  have nb: "neighbors ?g (0, 0) = Inr [(1, 0), (0, 1)]"
    by (simp add: neighbors_rect[OF r] candidates_def walkable_def cells_def rows_def cols_def)
  have hp0: "heappop [(2, 0, (0, 0))] = Inr ((2, 0, (0, 0)), [])"
    by (simp add: heappop_def)
  have b: "body ?g (1, 1) (initial (1, 1) (0, 0)) = Continue ?s"
    by (simp add: body_def initial_def h_def hp0 nb relax_def heappush_def Let_def)
  have ne: "pq (initial (1, 1) (0, 0)) \<noteq> []" by (simp add: initial_def)
  have re: "reach ?g (0, 0) (1, 1) ?s"
    by (rule reach_step[OF reach_initial ne b])
  have hp: "heappop (pq ?s) = Inr ((2, 1, (1, 0)), [(2, 2, (0, 1))])"
    by (simp add: heappop_def)
  from pop_order[OF re hp] re hp show ?thesis by simp
qed

text \<open>
  C1: on a rectangular grid with an in-bounds walkable start and goal, a returned
  path is a route from the start to the goal, no route from the start to the
  goal has fewer positions, and its number of steps is the least number of
  steps of any such route.
\<close>

theorem astar_optimal:
  assumes "rectangular grid" and "walkable grid start" and "walkable grid goal"
    and "astar grid start goal = Some (Inr (Some path))"
  shows "connects grid start goal path \<and>
         (\<forall>ps. connects grid start goal ps \<longrightarrow> length path \<le> length ps) \<and>
         length path - 1 = distance grid start goal"
proof -
  from assms(4) have l: "loop grid goal (initial goal start) = Some (Inr (Some path))"
    by (simp only: astar_loop[OF walkable_rows[OF assms(2)]])
  from loop_optimal[OF assms(1) inv_initial[OF assms(2)] l]
  have c: "connects grid start goal path"
    and m: "\<And>ps. connects grid start goal ps \<Longrightarrow> length path \<le> length ps" by blast+
  from c have ne: "path \<noteq> []" by (auto simp: connects_def)
  have "distance grid start goal = length path - 1"
    unfolding distance_def
  proof (rule Least_equality)
    show "\<exists>ps. connects grid start goal ps \<and> length ps = Suc (length path - 1)"
      using c ne by (intro exI[of _ path]) simp
  next
    fix n assume "\<exists>ps. connects grid start goal ps \<and> length ps = Suc n"
    then obtain ps where "connects grid start goal ps" "length ps = Suc n" by blast
    with m[of ps] show "length path - 1 \<le> n" by simp
  qed
  with c m show ?thesis by simp
qed

theorem astar_optimal_witness:
  "rectangular [[0, 0], [1, 0]] \<and> walkable [[0, 0], [1, 0]] (0, 0) \<and> walkable [[0, 0], [1, 0]] (1, 1) \<and>
   astar [[0, 0], [1, 0]] (0, 0) (1, 1) = Some (Inr (Some [(0, 0), (0, 1), (1, 1)])) \<and>
   connects [[0, 0], [1, 0]] (0, 0) (1, 1) [(0, 0), (0, 1), (1, 1)] \<and>
   distance [[0, 0], [1, 0]] (0, 0) (1, 1) = 2"
proof -
  have r: "rectangular [[0, 0], [1, 0]]" by (simp add: rectangular_def cols_def)
  have s: "walkable [[0, 0], [1, 0]] (0, 0)" by (simp add: walkable_def cells_def rows_def cols_def)
  have g: "walkable [[0, 0], [1, 0]] (1, 1)" by (simp add: walkable_def cells_def rows_def cols_def)
  have a: "astar [[0, 0], [1, 0]] (0, 0) (1, 1) = Some (Inr (Some [(0, 0), (0, 1), (1, 1)]))"
    by code_simp
  from astar_optimal[OF r s g a] r s g a show ?thesis by simp
qed





end
